theory Spec2Isabelle
  imports Main
begin

section \<open>Errors\<close>

text \<open>
  A Go \<open>error\<close> value is \<open>nil\<close> or an error. The errors that matter here are
  \<open>context.Canceled\<close>, errors made elsewhere (told apart by their text), and the wrapper that
  \<open>errors.WithMessagef\<close> of github.com/pkg/errors builds around a cause. A nil error is
  \<open>None\<close> of \<open>error option\<close>.
\<close>

datatype error = Canceled | Failure string | WithMessage error string

text \<open>\<open>err.Error()\<close>: the wrapper prints its message, a colon, and the text of its cause.\<close>

fun Error :: "error \<Rightarrow> string" where
  "Error Canceled = ''context canceled''"
| "Error (Failure msg) = msg"
| "Error (WithMessage cause msg) = msg @ '': '' @ Error cause"

text \<open>
  \<open>errors.Is(err, target)\<close> compares \<open>err\<close> with the target and then follows \<open>Unwrap\<close>,
  which the wrapper answers with its cause.
\<close>

fun Is :: "error \<Rightarrow> error \<Rightarrow> bool" where
  "Is (WithMessage cause msg) target = (WithMessage cause msg = target \<or> Is cause target)"
| "Is err target = (err = target)"

text \<open>
  \<open>errors.WithMessagef(err, format, ...)\<close> applied to the result of a call: the source only
  calls it on a non-nil error and otherwise returns nil.
\<close>

definition wrap :: "error option \<Rightarrow> string \<Rightarrow> error option" where
  "wrap err msg = (case err of None \<Rightarrow> None | Some e \<Rightarrow> Some (WithMessage e msg))"

section \<open>Runners, controllers and the bootstrap\<close>

text \<open>
  A call that blocks (a runner's \<open>Run\<close>, a hook, the controller's \<open>Wait\<close>) is given by what it
  does when its goroutine is scheduled: told whether the context it was called with is done,
  it is still blocked (\<open>None\<close>) or it returns its error (\<open>Some err\<close>).
\<close>

type_synonym call = "bool \<Rightarrow> error option option"

record runner =
  Name :: string
  Run :: call
  Stop :: "error option"

datatype shutdown_option =
    WithTimeout nat
  | WithErrorHandler string
  | WithTrigger string

text \<open>
  A \<open>shutdown.Controller\<close>: the graceful controller of the shutdown package, built from its
  options, or any other implementation of the interface.
\<close>

datatype controller = NewGraceful "shutdown_option list" | Controller nat

record bootstrap =
  beforeRun :: "call option"
  onRun :: "call option"
  runners :: "runner list"
  gs :: "controller option"

type_synonym Option = "bootstrap \<Rightarrow> bootstrap"

definition WithShutdown :: "controller option \<Rightarrow> Option" where
  "WithShutdown c b = (if c = None then b else b\<lparr>gs := c\<rparr>)"

definition WithBeforeRun :: "call option \<Rightarrow> Option" where
  "WithBeforeRun hook b = b\<lparr>beforeRun := hook\<rparr>"

definition WithOnRun :: "call option \<Rightarrow> Option" where
  "WithOnRun fn b = b\<lparr>onRun := fn\<rparr>"

definition WithRunners :: "runner list \<Rightarrow> Option" where
  "WithRunners rs b = b\<lparr>runners := runners b @ rs\<rparr>"

text \<open>\<open>time.Second\<close>, in nanoseconds.\<close>

definition Second :: nat where
  "Second = 1000000000"

definition New :: "Option list \<Rightarrow> bootstrap" where
  "New opts =
     foldl (\<lambda>b opt. opt b)
       \<lparr>beforeRun = None, onRun = None, runners = [],
        gs = Some (NewGraceful
               [WithTimeout Second,
                WithErrorHandler ''error when shutting down'',
                WithTrigger ''posixsignal''])\<rparr>
       opts"

text \<open>
  The configuration functions the package offers. The type \<open>bootstrap\<close> is not exported, so
  a caller outside the package has no other way to write an \<open>Option\<close>.
\<close>

definition Options :: "Option set" where
  "Options = range WithShutdown \<union> range WithBeforeRun \<union> range WithOnRun \<union> range WithRunners"

section \<open>Run\<close>

text \<open>
  \<open>Run\<close> starts goroutines through an \<open>errgroup.Group\<close> and waits for them. It is
  modelled as a machine whose threads are scheduled one step at a time: the goroutine that
  called \<open>Run\<close>, the tasks given to \<open>eg.Go\<close>, the controller when it calls a shutdown
  callback, and the caller of \<open>Run\<close> when it cancels the context it passed in. A property of
  \<open>Run\<close> is a property of every schedule.
\<close>

datatype level = ErrorLevel | InfoLevel

text \<open>The functions handed to \<open>eg.Go\<close>, in the order of the source.\<close>

datatype task = Wait_task | Start_task nat | OnRun_task

text \<open>Where a task is in its body.\<close>

datatype progress = Spawned | Logged | Confirmed | Blocked | Finished

text \<open>Where the goroutine that called \<open>Run\<close> is.\<close>

datatype pc =
    Entry
  | Before
  | Before_wait
  | Group
  | Loop nat
  | Add nat
  | Spawn nat
  | Barrier
  | Started
  | Spawn_onRun
  | Eg_wait
  | Returned "error option"

datatype thread = Main | Task task | Shutdown nat string | Cancel

text \<open>What happened, in the order it happened.\<close>

datatype event =
    Log level string
  | BeforeRun_called
  | BeforeRun_returned "error option"
  | Go task
  | AddShutdownCallback nat
  | WaitStart_Done nat
  | Wait_called
  | Run_called nat
  | OnRun_called
  | Task_returned task "error option"
  | Stop_called nat
  | Callback_returned nat "error option"
  | Handled error

text \<open>
  What \<open>Run\<close> meets outside the bootstrap: whether the logger of the context has the info
  level enabled, and how the \<open>Wait\<close> of a controller behaves.
\<close>

record world =
  Info_enabled :: bool
  Wait :: "controller \<Rightarrow> call"

record state =
  main :: pc
  tasks :: "task \<Rightarrow> progress option"
  ctx_done :: bool
  eg_cancelled :: bool
  eg_err :: "error option"
  eg_wg :: nat
  waitStart :: nat
  callbacks :: "nat list"
  called :: "nat set"
  panicked :: bool
  trace :: "event list"

definition init :: state where
  "init = \<lparr>main = Entry, tasks = (\<lambda>t. None), ctx_done = False, eg_cancelled = False,
           eg_err = None, eg_wg = 0, waitStart = 0, callbacks = [], called = {}, panicked = False,
           trace = []\<rparr>"

text \<open>
  \<open>egCtx\<close> is derived from \<open>ctx\<close> by \<open>errgroup.WithContext\<close>: it is done once \<open>ctx\<close> is done
  or the group has cancelled it.
\<close>

definition egCtx_done :: "state \<Rightarrow> bool" where
  "egCtx_done s = (ctx_done s \<or> eg_cancelled s)"

text \<open>\<open>logger.Info\<close> behind \<open>logger.Enabled(slog.InfoLevel)\<close>.\<close>

definition info :: "world \<Rightarrow> string \<Rightarrow> event list" where
  "info w msg = (if Info_enabled w then [Log InfoLevel msg] else [])"

text \<open>
  \<open>eg.Go(f)\<close>: the group counts the task and starts its goroutine.
\<close>

definition go :: "task \<Rightarrow> state \<Rightarrow> state" where
  "go t s = s\<lparr>tasks := (tasks s)(t \<mapsto> Spawned), eg_wg := eg_wg s + 1,
              trace := trace s @ [Go t]\<rparr>"

text \<open>
  The end of a task of the group: the first non-nil error is kept and cancels \<open>egCtx\<close>
  (\<open>errOnce\<close>), and the task is counted as done.
\<close>

definition finish :: "task \<Rightarrow> error option \<Rightarrow> state \<Rightarrow> state" where
  "finish t err s =
     (let s' = s\<lparr>tasks := (tasks s)(t \<mapsto> Finished), eg_wg := eg_wg s - 1,
                 trace := trace s @ [Task_returned t err]\<rparr>
      in if err \<noteq> None \<and> eg_err s = None
         then s'\<lparr>eg_err := err, eg_cancelled := True\<rparr>
         else s')"

text \<open>The last two statements of \<open>Run\<close>, on the error \<open>eg.Wait()\<close> returned.\<close>

definition result :: "error option \<Rightarrow> error option" where
  "result err =
     (case err of
        None \<Rightarrow> None
      | Some e \<Rightarrow> if \<not> Is e Canceled then Some (WithMessage e ''bootstrap run err'') else None)"

text \<open>One step of the goroutine that called \<open>Run\<close>. A step that cannot be taken yet leaves the
  state as it is.\<close>

definition main_step :: "world \<Rightarrow> bootstrap \<Rightarrow> state \<Rightarrow> state" where
  "main_step w b s =
     (case main s of
        Entry \<Rightarrow>
          if length (runners b) = 0
          then s\<lparr>main := Returned None,
                 trace := trace s @ [Log ErrorLevel ''no runners, abort.'']\<rparr>
          else s\<lparr>main := Before\<rparr>
      | Before \<Rightarrow>
          (case beforeRun b of
             None \<Rightarrow> s\<lparr>main := Group\<rparr>
           | Some hook \<Rightarrow> s\<lparr>main := Before_wait, trace := trace s @ [BeforeRun_called]\<rparr>)
      | Before_wait \<Rightarrow>
          (case beforeRun b of
             None \<Rightarrow> s
           | Some hook \<Rightarrow>
               (case hook (ctx_done s) of
                  None \<Rightarrow> s
                | Some err \<Rightarrow>
                    if err \<noteq> None
                    then s\<lparr>main := Returned err,
                           trace := trace s @ [BeforeRun_returned err]\<rparr>
                    else s\<lparr>main := Group, trace := trace s @ [BeforeRun_returned err]\<rparr>))
      | Group \<Rightarrow> (go Wait_task s)\<lparr>main := Loop 0\<rparr>
      | Loop i \<Rightarrow>
          if i < length (runners b)
          then (case gs b of
                  None \<Rightarrow> s\<lparr>panicked := True\<rparr>
                | Some c \<Rightarrow> s\<lparr>main := Add i, callbacks := callbacks s @ [i],
                               trace := trace s @ [AddShutdownCallback i]\<rparr>)
          else s\<lparr>main := Barrier\<rparr>
      | Add i \<Rightarrow> s\<lparr>main := Spawn i, waitStart := waitStart s + 1\<rparr>
      | Spawn i \<Rightarrow> (go (Start_task i) s)\<lparr>main := Loop (i + 1)\<rparr>
      | Barrier \<Rightarrow> if waitStart s = 0 then s\<lparr>main := Started\<rparr> else s
      | Started \<Rightarrow> s\<lparr>main := Spawn_onRun, trace := trace s @ info w ''bootstrap started.''\<rparr>
      | Spawn_onRun \<Rightarrow> (go OnRun_task s)\<lparr>main := Eg_wait\<rparr>
      | Eg_wait \<Rightarrow>
          if eg_wg s = 0
          then s\<lparr>main := Returned (result (eg_err s)), eg_cancelled := True\<rparr>
          else s
      | Returned r \<Rightarrow> s)"

text \<open>One step of a task of the group.\<close>

definition task_step :: "world \<Rightarrow> bootstrap \<Rightarrow> task \<Rightarrow> state \<Rightarrow> state" where
  "task_step w b t s =
     (case tasks s t of
        None \<Rightarrow> s
      | Some p \<Rightarrow>
          (case t of
             Wait_task \<Rightarrow>
               (case gs b of
                  None \<Rightarrow> if p = Spawned then s\<lparr>panicked := True\<rparr> else s
                | Some c \<Rightarrow>
                    if p = Spawned
                    then s\<lparr>tasks := (tasks s)(t \<mapsto> Blocked), trace := trace s @ [Wait_called]\<rparr>
                    else if p = Blocked
                    then (case Wait w c (egCtx_done s) of
                            None \<Rightarrow> s
                          | Some err \<Rightarrow> finish t err s)
                    else s)
           | Start_task i \<Rightarrow>
               if i < length (runners b)
               then (let r = runners b ! i in
                     case p of
                       Spawned \<Rightarrow>
                         s\<lparr>tasks := (tasks s)(t \<mapsto> Logged),
                           trace := trace s @ info w (''Starting runner: '' @ Name r)\<rparr>
                     | Logged \<Rightarrow>
                         if waitStart s = 0 then s\<lparr>panicked := True\<rparr>
                         else s\<lparr>tasks := (tasks s)(t \<mapsto> Confirmed),
                                waitStart := waitStart s - 1,
                                trace := trace s @ [WaitStart_Done i]\<rparr>
                     | Confirmed \<Rightarrow>
                         s\<lparr>tasks := (tasks s)(t \<mapsto> Blocked), trace := trace s @ [Run_called i]\<rparr>
                     | Blocked \<Rightarrow>
                         (case Run r (egCtx_done s) of
                            None \<Rightarrow> s
                          | Some err \<Rightarrow>
                              finish t (wrap err (''starting '' @ Name r @ '' failed'')) s)
                     | Finished \<Rightarrow> s)
               else s
           | OnRun_task \<Rightarrow>
               (case onRun b of
                  None \<Rightarrow> if p = Spawned then finish t None s else s
                | Some fn \<Rightarrow>
                    if p = Spawned
                    then s\<lparr>tasks := (tasks s)(t \<mapsto> Blocked), trace := trace s @ [OnRun_called]\<rparr>
                    else if p = Blocked
                    then (case fn (egCtx_done s) of
                            None \<Rightarrow> s
                          | Some err \<Rightarrow> finish t (wrap err ''onRun err'') s)
                    else s)))"

text \<open>
  The controller calls the \<open>k\<close>-th callback it was given, with an event of the given reason.
  The callback belongs to the runner of the loop iteration that registered it.
\<close>

definition callback :: "world \<Rightarrow> bootstrap \<Rightarrow> nat \<Rightarrow> string \<Rightarrow> event list" where
  "callback w b i reason =
     (let r = runners b ! i in
      info w (''Stopping runner: '' @ Name r @ '', cause: '' @ reason) @
      [Stop_called i] @
      (case Stop r of
         Some e \<Rightarrow> [Callback_returned i (Some (WithMessage e (''stopping '' @ Name r @ '' failed'')))]
       | None \<Rightarrow> info w (''Runner stoped: '' @ Name r) @ [Callback_returned i None]))"

text \<open>What the callback returns to the controller that called it.\<close>

definition callback_result :: "bootstrap \<Rightarrow> nat \<Rightarrow> error option" where
  "callback_result b i =
     wrap (Stop (runners b ! i)) (''stopping '' @ Name (runners b ! i) @ '' failed'')"

text \<open>
  Modelled from the spec: the Shutdown Controller hands the error a callback returns to its
  error handler. The shutdown package is not part of this repository; the handler is. \<open>New\<close>
  gives the graceful controller a handler that logs at the error level under the message
  "error when shutting down".
\<close>

definition handled :: "controller \<Rightarrow> error option \<Rightarrow> event list" where
  "handled c err =
     (case err of
        None \<Rightarrow> []
      | Some x \<Rightarrow>
          Handled x #
          (case c of
             NewGraceful opts \<Rightarrow>
               concat (map (\<lambda>opt. case opt of WithErrorHandler msg \<Rightarrow> [Log ErrorLevel msg]
                                      | _ \<Rightarrow> []) opts)
           | Controller n \<Rightarrow> []))"

text \<open>
  Modelled from the spec: the Shutdown Controller. Its \<open>Wait\<close> blocks until a shutdown is
  triggered or its context is done. A shutdown is under way once \<open>Wait\<close> has been called and
  can return or has returned; whether the controller calls the callbacks before or after
  \<open>Wait\<close> returns is left open, and both orders are schedules of the machine.
\<close>

definition shutting_down :: "world \<Rightarrow> controller \<Rightarrow> state \<Rightarrow> bool" where
  "shutting_down w c s =
     (tasks s Wait_task = Some Finished
      \<or> tasks s Wait_task = Some Blocked \<and> Wait w c (egCtx_done s) \<noteq> None)"

text \<open>
  Modelled from the spec: during a shutdown the controller calls the callbacks registered
  with it, each of them once, and hands what a callback returns to its error handler. The
  step is the call of the \<open>k\<close>-th callback.
\<close>

definition shutdown_step :: "world \<Rightarrow> bootstrap \<Rightarrow> nat \<Rightarrow> string \<Rightarrow> state \<Rightarrow> state" where
  "shutdown_step w b k reason s =
     (case gs b of
        None \<Rightarrow> s
      | Some c \<Rightarrow>
          if shutting_down w c s \<and> k < length (callbacks s)
             \<and> callbacks s ! k < length (runners b) \<and> k \<notin> called s
          then s\<lparr>called := insert k (called s),
                 trace := trace s @ callback w b (callbacks s ! k) reason
                          @ handled c (callback_result b (callbacks s ! k))\<rparr>
          else s)"

definition step :: "world \<Rightarrow> bootstrap \<Rightarrow> state \<Rightarrow> thread \<Rightarrow> state" where
  "step w b s th =
     (if panicked s then s
      else case th of
             Main \<Rightarrow> main_step w b s
           | Task t \<Rightarrow> task_step w b t s
           | Shutdown k reason \<Rightarrow> shutdown_step w b k reason s
           | Cancel \<Rightarrow> s\<lparr>ctx_done := True\<rparr>)"

text \<open>\<open>Run\<close> under a schedule: the state it has reached.\<close>

definition bootstrap_Run :: "world \<Rightarrow> bootstrap \<Rightarrow> thread list \<Rightarrow> state" where
  "bootstrap_Run w b sched = foldl (step w b) init sched"

section \<open>The fixtures of the tests\<close>

text \<open>
  The mock runner of \<open>TestBootstrap_Run\<close>: its \<open>Run\<close> waits for its context to be done and
  returns nil, its \<open>Stop\<close> returns nil.
\<close>

definition testRunner :: runner where
  "testRunner = \<lparr>Name = ''testRunner'', Run = (\<lambda>done. if done then Some None else None),
                  Stop = None\<rparr>"

text \<open>A hook that returns nil, and one that returns \<open>errors.New("test")\<close>.\<close>

definition hook_ok :: call where
  "hook_ok = (\<lambda>done. Some None)"

definition hook_fails :: call where
  "hook_fails = (\<lambda>done. Some (Some (Failure ''test'')))"

text \<open>
  A world for the examples: the info level is enabled, and \<open>Wait\<close> blocks until its context is
  done and then returns the error of the context.
\<close>

definition test_world :: world where
  "test_world = \<lparr>Info_enabled = True,
                  Wait = (\<lambda>c done. if done then Some (Some Canceled) else None)\<rparr>"

text \<open>A second runner like the first, under another name.\<close>

definition otherRunner :: runner where
  "otherRunner = testRunner\<lparr>Name := ''otherRunner''\<rparr>"

text \<open>
  Two runners and both hooks, and a schedule under which the first runner is already in its
  \<open>Run\<close> while the second is being registered, up to the start of the post-start task.
\<close>

definition two_runners :: bootstrap where
  "two_runners =
     New [WithRunners [testRunner, otherRunner], WithBeforeRun (Some hook_ok),
          WithOnRun (Some hook_ok)]"

definition interleaved :: "thread list" where
  "interleaved =
     [Main, Main, Main, Main, Main, Main, Main, Task (Start_task 0), Main, Main, Main,
      Task (Start_task 0), Task (Start_task 0), Main, Main, Task (Start_task 1),
      Task (Start_task 1), Main, Main, Main, Task (Start_task 1)]"

text \<open>
  The test \<open>run\<close>: one runner and both hooks. Under the schedule \<open>Run\<close> starts everything, the
  caller cancels the context, \<open>Wait\<close> returns, the controller calls the callback, the runner
  returns and \<open>Run\<close> returns.
\<close>

definition run_test :: bootstrap where
  "run_test = New [WithRunners [testRunner], WithBeforeRun (Some hook_ok), WithOnRun (Some hook_ok)]"

definition cancelled :: "thread list" where
  "cancelled =
     [Main, Main, Main, Main, Main, Main, Main, Task (Start_task 0), Task (Start_task 0),
      Task (Start_task 0), Main, Main, Main, Main, Task OnRun_task, Task OnRun_task,
      Task Wait_task, Cancel, Task Wait_task, Shutdown 0 ''context canceled'',
      Task (Start_task 0), Main]"

text \<open>The test \<open>runner_stop_fail\<close>: the runner's \<open>Stop\<close> returns \<open>errors.New("test")\<close>, and there
  are no hooks.\<close>

definition stopFailRunner :: runner where
  "stopFailRunner = testRunner\<lparr>Stop := Some (Failure ''test'')\<rparr>"

definition runner_stop_fail_test :: bootstrap where
  "runner_stop_fail_test = New [WithRunners [stopFailRunner]]"

definition stop_fails :: "thread list" where
  "stop_fails =
     [Main, Main, Main, Main, Main, Main, Task (Start_task 0), Task (Start_task 0),
      Task (Start_task 0), Main, Main, Main, Main, Task OnRun_task, Task Wait_task, Cancel,
      Task Wait_task, Shutdown 0 ''context canceled'', Task (Start_task 0), Main]"

text \<open>The test \<open>run_err\<close>: the runner's \<open>Run\<close> returns \<open>errors.New("test")\<close> at once. Under the
  schedule the runner fails before the post-start task is started.\<close>

definition failingRunner :: runner where
  "failingRunner = testRunner\<lparr>Run := hook_fails\<rparr>"

definition run_err_test :: bootstrap where
  "run_err_test =
     New [WithRunners [failingRunner], WithBeforeRun (Some hook_ok), WithOnRun (Some hook_ok)]"

definition start_fails :: "thread list" where
  "start_fails =
     [Main, Main, Main, Main, Main, Main, Main, Task (Start_task 0), Task (Start_task 0),
      Task (Start_task 0), Task (Start_task 0), Main, Main, Main, Main, Task OnRun_task,
      Task OnRun_task, Task Wait_task, Task Wait_task, Shutdown 0 ''context canceled'', Main]"

text \<open>The test \<open>onRun_fail\<close>: the post-start hook returns \<open>errors.New("test")\<close>.\<close>

definition onRun_fail_test :: bootstrap where
  "onRun_fail_test = New [WithRunners [testRunner], WithOnRun (Some hook_fails)]"

definition onRun_fails :: "thread list" where
  "onRun_fails =
     [Main, Main, Main, Main, Main, Main, Task (Start_task 0), Task (Start_task 0),
      Task (Start_task 0), Main, Main, Main, Main, Task OnRun_task, Task OnRun_task,
      Task Wait_task, Task Wait_task, Shutdown 0 ''context canceled'', Task (Start_task 0),
      Main]"

text \<open>
  A call that waits for its context to be done and returns the error of the context,
  \<open>ctx.Err()\<close>, and a runner whose \<open>Run\<close> does so.
\<close>

definition ctx_err :: call where
  "ctx_err = (\<lambda>done. if done then Some (Some Canceled) else None)"

definition cancellingRunner :: runner where
  "cancellingRunner = testRunner\<lparr>Run := ctx_err\<rparr>"

text \<open>One runner that returns \<open>ctx.Err()\<close>, and one runner with a post-start hook that returns
  \<open>ctx.Err()\<close>. Under the schedule the caller cancels once everything is started; the runner
  and the hook return before \<open>Wait\<close> does, and then the controller calls the callback.\<close>

definition ctx_err_runner :: bootstrap where
  "ctx_err_runner = New [WithRunners [cancellingRunner]]"

definition ctx_err_hook :: bootstrap where
  "ctx_err_hook = New [WithRunners [testRunner], WithOnRun (Some ctx_err)]"

definition cancel_late :: "thread list" where
  "cancel_late =
     [Main, Main, Main, Main, Main, Main, Task (Start_task 0), Task (Start_task 0),
      Task (Start_task 0), Main, Main, Main, Main, Task OnRun_task, Task Wait_task, Cancel,
      Task (Start_task 0), Task OnRun_task, Task Wait_task, Shutdown 0 ''context canceled'',
      Main]"

text \<open>Two runners that fail at once, and a runner that fails at once with a failing post-start
  hook; under the schedule the first runner returns first.\<close>

definition two_failing :: bootstrap where
  "two_failing = New [WithRunners [failingRunner, failingRunner\<lparr>Name := ''otherRunner''\<rparr>]]"

definition both_fail :: bootstrap where
  "both_fail = New [WithRunners [failingRunner], WithOnRun (Some hook_fails)]"

definition first_wins :: "thread list" where
  "first_wins =
     [Main, Main, Main, Main, Main, Main, Task (Start_task 0), Task (Start_task 0),
      Task (Start_task 0), Task (Start_task 0), Main, Main, Main, Task (Start_task 1),
      Task (Start_task 1), Task (Start_task 1), Task (Start_task 1), Main, Main, Main, Main,
      Task OnRun_task, Task OnRun_task, Task Wait_task, Task Wait_task,
      Shutdown 0 ''context canceled'', Shutdown 1 ''context canceled'', Main]"

section \<open>Definitions for the proofs\<close>

text \<open>
  Where \<open>Run\<close> can be, and what has happened, when the pre-start hook never returns nil:
  nothing is started or registered, and \<open>Run\<close> is before the hook, in it, or has returned an
  error the hook returns.
\<close>

definition gated :: "call \<Rightarrow> state \<Rightarrow> bool" where
  "gated hook s =
     (tasks s = (\<lambda>t. None) \<and> callbacks s = [] \<and> \<not> panicked s
      \<and> (main s = Entry \<and> trace s = []
         \<or> main s = Before \<and> trace s = []
         \<or> main s = Before_wait \<and> trace s = [BeforeRun_called]
         \<or> (\<exists>d e. hook d = Some (Some e) \<and> main s = Returned (Some e)
               \<and> trace s = [BeforeRun_called, BeforeRun_returned (Some e)])))"

fun stage :: "pc \<Rightarrow> nat" where
  "stage Entry = 0"
| "stage Before = 1"
| "stage Before_wait = 2"
| "stage p = 3"

text \<open>
  The first task of the group that returned an error, with the error: what \<open>errOnce\<close> keeps.
\<close>

fun first_failure :: "event list \<Rightarrow> (task \<times> error) option" where
  "first_failure [] = None"
| "first_failure (Task_returned t (Some e) # tr) = Some (t, e)"
| "first_failure (ev # tr) = first_failure tr"

text \<open>In a trace, no \<open>y\<close> comes before the first \<open>x\<close>.\<close>

definition precedes :: "'a \<Rightarrow> 'a \<Rightarrow> 'a list \<Rightarrow> bool" where
  "precedes x y tr = (\<forall>pre post. tr = pre @ y # post \<longrightarrow> x \<in> set pre)"

text \<open>The tasks that were started and have not returned, and the start tasks that have not
  yet called \<open>waitStart.Done\<close>.\<close>

definition live :: "state \<Rightarrow> task set" where
  "live s = {t. \<exists>p. tasks s t = Some p \<and> p \<noteq> Finished}"

definition unconfirmed :: "state \<Rightarrow> nat set" where
  "unconfirmed s = {i. tasks s (Start_task i) = Some Spawned \<or> tasks s (Start_task i) = Some Logged}"

definition confirmed :: "state \<Rightarrow> nat \<Rightarrow> bool" where
  "confirmed s i = (tasks s (Start_task i) = Some Confirmed \<or> tasks s (Start_task i) = Some Blocked
                    \<or> tasks s (Start_task i) = Some Finished)"

text \<open>Before the group exists nothing has been started, registered or counted.\<close>

definition pristine :: "state \<Rightarrow> bool" where
  "pristine s = (tasks s = (\<lambda>t. None) \<and> callbacks s = [] \<and> eg_wg s = 0 \<and> waitStart s = 0
                 \<and> eg_err s = None)"

text \<open>
  How far the loop over the runners is: how many start tasks have been started and how many
  callbacks registered when \<open>Run\<close> is at a given place, for \<open>n\<close> runners.
\<close>

fun spawned :: "nat \<Rightarrow> pc \<Rightarrow> nat" where
  "spawned n (Loop i) = i"
| "spawned n (Add i) = i"
| "spawned n (Spawn i) = i"
| "spawned n p = n"

fun registered :: "nat \<Rightarrow> pc \<Rightarrow> nat" where
  "registered n (Loop i) = i"
| "registered n (Add i) = Suc i"
| "registered n (Spawn i) = Suc i"
| "registered n p = n"

fun in_range :: "nat \<Rightarrow> pc \<Rightarrow> bool" where
  "in_range n (Loop i) = (i \<le> n)"
| "in_range n (Add i) = (i < n)"
| "in_range n (Spawn i) = (i < n)"
| "in_range n p = True"

fun returned :: "pc \<Rightarrow> bool" where
  "returned (Returned r) = True"
| "returned p = False"

fun before_group :: "pc \<Rightarrow> bool" where
  "before_group Entry = True"
| "before_group Before = True"
| "before_group Before_wait = True"
| "before_group Group = True"
| "before_group p = False"

text \<open>The place of \<open>Run\<close> determines which tasks exist and which callbacks are registered.\<close>

definition control :: "bootstrap \<Rightarrow> state \<Rightarrow> bool" where
  "control b s =
     (if tasks s Wait_task = None
      then pristine s \<and> (before_group (main s) \<or> returned (main s))
      else (\<forall>j. (tasks s (Start_task j) \<noteq> None) = (j < spawned (length (runners b)) (main s)))
         \<and> (tasks s OnRun_task \<noteq> None) = (main s = Eg_wait \<or> returned (main s))
         \<and> callbacks s = [0..<registered (length (runners b)) (main s)]
         \<and> in_range (length (runners b)) (main s)
         \<and> \<not> before_group (main s)
         \<and> (returned (main s) \<longrightarrow> eg_wg s = 0))"

text \<open>The two wait groups count what they are meant to count.\<close>

definition counters :: "state \<Rightarrow> bool" where
  "counters s =
     (finite (live s) \<and> eg_wg s = card (live s) \<and> finite (unconfirmed s)
      \<and> waitStart s = card (unconfirmed s) + (case main s of Spawn i \<Rightarrow> 1 | _ \<Rightarrow> 0))"

text \<open>The error the group holds is the first one a task returned, and holding one the group
  has cancelled its context.\<close>

definition errors :: "state \<Rightarrow> bool" where
  "errors s = (eg_err s = map_option snd (first_failure (trace s))
               \<and> (eg_err s \<noteq> None \<longrightarrow> eg_cancelled s))"

text \<open>A start task has called \<open>waitStart.Done\<close> exactly when it is past that call, and it
  calls \<open>Run\<close> of its runner only after it.\<close>

definition signals :: "state \<Rightarrow> bool" where
  "signals s =
     (\<forall>i. count_list (trace s) (WaitStart_Done i) = (if confirmed s i then 1 else 0)
          \<and> precedes (WaitStart_Done i) (Run_called i) (trace s))"

text \<open>The callbacks the controller holds are the ones the trace shows, and the callback of a
  runner is registered before its start task is started.\<close>

definition registrations :: "state \<Rightarrow> bool" where
  "registrations s =
     (\<forall>i. (AddShutdownCallback i \<in> set (trace s)) = (i \<in> set (callbacks s))
          \<and> precedes (AddShutdownCallback i) (Go (Start_task i)) (trace s))"

text \<open>A pre-start hook has returned nil before the group exists and before a start task is
  started.\<close>

definition gate :: "bootstrap \<Rightarrow> state \<Rightarrow> bool" where
  "gate b s =
     (beforeRun b \<noteq> None \<longrightarrow>
        (main s = Group \<or> tasks s Wait_task \<noteq> None \<longrightarrow> BeforeRun_returned None \<in> set (trace s))
        \<and> (\<forall>i. precedes (BeforeRun_returned None) (Go (Start_task i)) (trace s)))"

text \<open>Past \<open>waitStart.Wait()\<close> every start task has called \<open>waitStart.Done\<close>, and the post-start
  task is started after all these calls.\<close>

definition barrier_passed :: "bootstrap \<Rightarrow> state \<Rightarrow> bool" where
  "barrier_passed b s =
     ((main s = Started \<or> main s = Spawn_onRun \<or> tasks s OnRun_task \<noteq> None \<longrightarrow>
         (\<forall>i<length (runners b). confirmed s i))
      \<and> (\<forall>i<length (runners b). precedes (WaitStart_Done i) (Go OnRun_task) (trace s)))"

text \<open>How often the hooks have been called.\<close>

definition hook_calls :: "bootstrap \<Rightarrow> state \<Rightarrow> bool" where
  "hook_calls b s =
     (count_list (trace s) BeforeRun_called
        = (if beforeRun b \<noteq> None \<and> runners b \<noteq> [] \<and> main s \<noteq> Entry \<and> main s \<noteq> Before
           then 1 else 0)
      \<and> count_list (trace s) OnRun_called
        = (if onRun b \<noteq> None
              \<and> (tasks s OnRun_task = Some Blocked \<or> tasks s OnRun_task = Some Finished)
           then 1 else 0)
      \<and> (runners b = [] \<longrightarrow> main s = Entry \<or> main s = Returned None))"

text \<open>Where the error of a task of the group comes from: what \<open>Wait\<close> of the controller
  returned, what \<open>Run\<close> of the runner returned, wrapped, or what the post-start hook returned,
  wrapped.\<close>

definition genuine :: "world \<Rightarrow> bootstrap \<Rightarrow> event \<Rightarrow> bool" where
  "genuine w b ev =
     (case ev of
        Task_returned t err \<Rightarrow>
          (case t of
             Wait_task \<Rightarrow> (\<exists>c d. gs b = Some c \<and> Wait w c d = Some err)
           | Start_task i \<Rightarrow>
               i < length (runners b)
               \<and> (\<exists>d r. Run (runners b ! i) d = Some r
                        \<and> err = wrap r (''starting '' @ Name (runners b ! i) @ '' failed''))
           | OnRun_task \<Rightarrow>
               (case onRun b of
                  None \<Rightarrow> err = None
                | Some fn \<Rightarrow> (\<exists>d r. fn d = Some r \<and> err = wrap r ''onRun err'')))
      | _ \<Rightarrow> True)"

definition origins :: "world \<Rightarrow> bootstrap \<Rightarrow> state \<Rightarrow> bool" where
  "origins w b s = (\<forall>ev \<in> set (trace s). genuine w b ev)"

text \<open>A task is in the trace as started exactly when it exists.\<close>

definition started_log :: "state \<Rightarrow> bool" where
  "started_log s = (\<forall>t. (Go t \<in> set (trace s)) = (tasks s t \<noteq> None))"

text \<open>
  What \<open>Run\<close> has returned: nil without runners or the error of the pre-start hook when the
  group was never made, and otherwise what its last statements make of the error of the
  group, with every task finished. A panic leaves \<open>Run\<close> without a return.
\<close>

definition outcome :: "bootstrap \<Rightarrow> state \<Rightarrow> bool" where
  "outcome b s =
     (\<forall>r. main s = Returned r \<longrightarrow>
        \<not> panicked s
        \<and> (if tasks s Wait_task = None
           then runners b = [] \<and> r = None
              \<or> (\<exists>hook d e. beforeRun b = Some hook \<and> hook d = Some (Some e) \<and> r = Some e)
           else r = result (eg_err s) \<and> (\<forall>t p. tasks s t = Some p \<longrightarrow> p = Finished)))"

text \<open>
  Every error a task of the group can return is nil or a cancellation: what \<open>Run\<close> of a runner,
  the post-start hook and \<open>Wait\<close> of the controller return.
\<close>

definition clean :: "world \<Rightarrow> bootstrap \<Rightarrow> bool" where
  "clean w b =
     ((\<forall>i<length (runners b). \<forall>d e. Run (runners b ! i) d = Some (Some e) \<longrightarrow> Is e Canceled)
      \<and> (\<forall>fn d e. onRun b = Some fn \<longrightarrow> fn d = Some (Some e) \<longrightarrow> Is e Canceled)
      \<and> (\<forall>c d e. gs b = Some c \<longrightarrow> Wait w c d = Some (Some e) \<longrightarrow> Is e Canceled))"

text \<open>A task that has returned exists.\<close>

definition returned_log :: "state \<Rightarrow> bool" where
  "returned_log s = (\<forall>t err. Task_returned t err \<in> set (trace s) \<longrightarrow> tasks s t \<noteq> None)"

text \<open>The wait task and the post-start task have no logging and no barrier step, and the
  post-start task and \<open>Run\<close> are inside a hook only when there is one.\<close>

definition shapes :: "bootstrap \<Rightarrow> state \<Rightarrow> bool" where
  "shapes b s =
     (tasks s Wait_task \<noteq> Some Logged \<and> tasks s Wait_task \<noteq> Some Confirmed
      \<and> tasks s OnRun_task \<noteq> Some Logged \<and> tasks s OnRun_task \<noteq> Some Confirmed
      \<and> (tasks s OnRun_task = Some Blocked \<longrightarrow> onRun b \<noteq> None)
      \<and> (main s = Before_wait \<longrightarrow> beforeRun b \<noteq> None))"

text \<open>
  The runners, the hooks and the controller of the test \<open>run\<close>, in general: every runner
  blocks until its context is done and returns nil, a pre-start hook returns nil, and the
  post-start hook and \<open>Wait\<close> of the controller return once their context is done, with nil or
  a cancellation.
\<close>

definition cooperative :: "world \<Rightarrow> bootstrap \<Rightarrow> bool" where
  "cooperative w b =
     ((\<forall>rn \<in> set (runners b). Run rn = (\<lambda>done. if done then Some None else None))
      \<and> (\<forall>hook. beforeRun b = Some hook \<longrightarrow> (\<forall>d. hook d = Some None))
      \<and> (\<forall>fn. onRun b = Some fn \<longrightarrow>
            fn True \<noteq> None \<and> (\<forall>d e. fn d = Some (Some e) \<longrightarrow> Is e Canceled))
      \<and> (\<exists>c. gs b = Some c \<and> Wait w c True \<noteq> None
             \<and> (\<forall>d e. Wait w c d = Some (Some e) \<longrightarrow> Is e Canceled)))"

text \<open>
  How many steps are left: for the goroutine of \<open>Run\<close> from where it is, with \<open>n\<close> runners,
  and for a task from where it is in its body.
\<close>

fun weight :: "nat \<Rightarrow> pc \<Rightarrow> nat" where
  "weight n Entry = 3 * n + 9"
| "weight n Before = 3 * n + 8"
| "weight n Before_wait = 3 * n + 7"
| "weight n Group = 3 * n + 6"
| "weight n (Loop i) = 3 * (n - i) + 5"
| "weight n (Add i) = 3 * (n - i) + 4"
| "weight n (Spawn i) = 3 * (n - i) + 3"
| "weight n Barrier = 4"
| "weight n Started = 3"
| "weight n Spawn_onRun = 2"
| "weight n Eg_wait = 1"
| "weight n (Returned r) = 0"

fun rank :: "progress option \<Rightarrow> nat" where
  "rank None = 5"
| "rank (Some Spawned) = 4"
| "rank (Some Logged) = 3"
| "rank (Some Confirmed) = 2"
| "rank (Some Blocked) = 1"
| "rank (Some Finished) = 0"

definition start_ranks :: "bootstrap \<Rightarrow> state \<Rightarrow> nat" where
  "start_ranks b s = (\<Sum>i<length (runners b). rank (tasks s (Start_task i)))"

text \<open>With the callbacks of the runners the controller has not called yet.\<close>

definition remaining :: "bootstrap \<Rightarrow> state \<Rightarrow> nat" where
  "remaining b s =
     weight (length (runners b)) (main s) + rank (tasks s Wait_task) + rank (tasks s OnRun_task)
     + start_ranks b s + card ({..<length (runners b)} - called s)"

text \<open>Every goroutine of \<open>Run\<close> with \<open>n\<close> runners is scheduled once and the controller gets to
  call each callback; and that, often enough for all of them to finish.\<close>

definition each_once :: "nat \<Rightarrow> string \<Rightarrow> thread list" where
  "each_once n reason =
     Main # Task Wait_task # Task OnRun_task # map (\<lambda>i. Task (Start_task i)) [0..<n]
     @ map (\<lambda>k. Shutdown k reason) [0..<n]"

definition drain :: "nat \<Rightarrow> string \<Rightarrow> thread list" where
  "drain n reason = concat (replicate (9 * n + 19) (each_once n reason))"

text \<open>The contracts of what \<open>Run\<close> calls: each call returns once its context is done.\<close>

definition responsive :: "world \<Rightarrow> bootstrap \<Rightarrow> bool" where
  "responsive w b =
     ((\<exists>c. gs b = Some c \<and> Wait w c True \<noteq> None)
      \<and> (\<forall>rn \<in> set (runners b). Run rn True \<noteq> None)
      \<and> (\<forall>fn. onRun b = Some fn \<longrightarrow> fn True \<noteq> None)
      \<and> (\<forall>hook. beforeRun b = Some hook \<longrightarrow> hook True \<noteq> None))"

text \<open>The context of the group is done and stays so: the caller has cancelled, or the group
  has.\<close>

definition over :: "state \<Rightarrow> bool" where
  "over s = (ctx_done s \<or> eg_cancelled s \<and> tasks s Wait_task \<noteq> None)"

text \<open>\<open>Run\<close> has returned, and if it made the group the controller has called the callback of
  every runner.\<close>

definition settled :: "bootstrap \<Rightarrow> state \<Rightarrow> bool" where
  "settled b s =
     (returned (main s) \<and> (tasks s Wait_task \<noteq> None \<longrightarrow> {..<length (runners b)} \<subseteq> called s))"

text \<open>
  What the trace holds of the callbacks: the controller has called \<open>Stop\<close> of a runner once
  when it has called the callback of the runner and not at all before, a callback returns what
  \<open>Stop\<close> returned, wrapped, the handler of the controller has been given what the callback
  returned, and it is given nothing else.
\<close>

definition stops :: "bootstrap \<Rightarrow> state \<Rightarrow> bool" where
  "stops b s =
     ((\<forall>k. count_list (trace s) (Stop_called k) = (if k \<in> called s then 1 else 0)
           \<and> (\<forall>err. Callback_returned k err \<in> set (trace s) \<longrightarrow>
                  k \<in> called s \<and> err = callback_result b k)
           \<and> (k \<in> called s \<longrightarrow>
                k < length (runners b)
                \<and> Callback_returned k (callback_result b k) \<in> set (trace s)
                \<and> (\<forall>c. gs b = Some c \<longrightarrow>
                       set (handled c (callback_result b k)) \<subseteq> set (trace s))))
      \<and> (\<forall>x. Handled x \<in> set (trace s) \<longrightarrow> (\<exists>k \<in> called s. callback_result b k = Some x)))"

section \<open>Construction\<close>

lemma Option_keeps_gs:
  assumes "opt \<in> Options" and "gs b \<noteq> None"
  shows "gs (opt b) \<noteq> None"
proof -
  from assms(1) consider c where "opt = WithShutdown c" | h where "opt = WithBeforeRun h"
    | h where "opt = WithOnRun h" | rs where "opt = WithRunners rs"
    unfolding Options_def by blast
  then show ?thesis
  proof cases
    case 1
    with assms(2) show ?thesis by (simp add: WithShutdown_def)
  next
    case 2
    with assms(2) show ?thesis by (simp add: WithBeforeRun_def)
  next
    case 3
    with assms(2) show ?thesis by (simp add: WithOnRun_def)
  next
    case 4
    with assms(2) show ?thesis by (simp add: WithRunners_def)
  qed
qed

lemma foldl_Options_gs:
  "set opts \<subseteq> Options \<Longrightarrow> gs b \<noteq> None \<Longrightarrow> gs (foldl (\<lambda>b opt. opt b) b opts) \<noteq> None"
proof (induction opts arbitrary: b)
  case Nil
  then show ?case by simp
next
  case (Cons opt opts)
  from Cons.prems have "opt \<in> Options" "gs b \<noteq> None"
    by simp_all
  then have "gs (opt b) \<noteq> None"
    by (rule Option_keeps_gs)
  with Cons.prems Cons.IH [of "opt b"] show ?case by simp
qed

text \<open>
  C6. Whatever configuration functions of the package \<open>New\<close> is given, the controller of the
  bootstrap it returns is not nil: \<open>New\<close> starts from a bootstrap that holds the graceful
  controller with the timeout of one second, applies the functions in order, and
  \<open>WithShutdown\<close> leaves the bootstrap as it is when given nil and stores a non-nil controller.
\<close>

theorem New_gs_never_nil:
  assumes "set opts \<subseteq> Options"
  shows "gs (New opts) \<noteq> None
       \<and> New opts = foldl (\<lambda>b opt. opt b) (New []) opts
       \<and> gs (New []) = Some (NewGraceful [WithTimeout Second,
                                WithErrorHandler ''error when shutting down'',
                                WithTrigger ''posixsignal''])
       \<and> WithShutdown None b = b
       \<and> gs (WithShutdown (Some c) b) = Some c"
proof -
  have "gs (New opts) \<noteq> None"
    unfolding New_def by (rule foldl_Options_gs [OF assms]) simp
  moreover have "New opts = foldl (\<lambda>b opt. opt b) (New []) opts"
    by (simp add: New_def)
  moreover have "gs (New []) = Some (NewGraceful [WithTimeout Second,
      WithErrorHandler ''error when shutting down'', WithTrigger ''posixsignal''])"
    by (simp add: New_def)
  moreover have "WithShutdown None b = b" "gs (WithShutdown (Some c) b) = Some c"
    by (simp_all add: WithShutdown_def)
  ultimately show ?thesis by blast
qed

theorem New_gs_never_nil_witness:
  "set [WithShutdown None, WithBeforeRun None, WithShutdown (Some (Controller 7)), WithShutdown None]
     \<subseteq> Options
   \<and> gs (New [WithShutdown None, WithBeforeRun None, WithShutdown (Some (Controller 7)),
              WithShutdown None]) = Some (Controller 7)
   \<and> gs (New [WithShutdown None]) \<noteq> None"
proof -
  have h: "set [WithShutdown None, WithBeforeRun None, WithShutdown (Some (Controller 7)),
                WithShutdown None] \<subseteq> Options"
    by (simp add: Options_def)
  have "set [WithShutdown None] \<subseteq> Options"
    by (simp add: Options_def)
  from New_gs_never_nil [OF this] New_gs_never_nil [OF h] h show ?thesis
    by (simp add: New_def WithShutdown_def WithBeforeRun_def)
qed

text \<open>
  C9. \<open>WithBeforeRun\<close> and \<open>WithOnRun\<close> store their argument without looking at it: given nil
  they clear a hook that was set before, also as the last configuration functions of \<open>New\<close>,
  whereas \<open>WithShutdown\<close> given nil keeps the controller that was set before.
\<close>

theorem nil_hook_overwrites:
  "beforeRun (WithBeforeRun None (WithBeforeRun (Some hook) b)) = None
   \<and> onRun (WithOnRun None (WithOnRun (Some fn) b)) = None
   \<and> beforeRun (New (opts @ [WithBeforeRun (Some hook), WithBeforeRun None])) = None
   \<and> onRun (New (opts @ [WithOnRun (Some fn), WithOnRun None])) = None
   \<and> WithBeforeRun None b = b\<lparr>beforeRun := None\<rparr>
   \<and> WithOnRun None b = b\<lparr>onRun := None\<rparr>
   \<and> gs (WithShutdown None (WithShutdown (Some c) b)) = Some c"
  by (simp add: New_def WithBeforeRun_def WithOnRun_def WithShutdown_def)

section \<open>The steps of Run\<close>

lemma Run_snoc: "bootstrap_Run w b (sched @ [th]) = step w b (bootstrap_Run w b sched) th"
  by (simp add: bootstrap_Run_def)

lemma Run_Nil: "bootstrap_Run w b [] = init"
  by (simp add: bootstrap_Run_def)

lemma main_step_cases [case_names stutter panic abort enter no_hook call_hook hook_fails hook_ok
    group register leave add spawn barrier started spawn_onRun return]:
  obtains "main_step w b s = s"
  | i where "main s = Loop i" "i < length (runners b)" "gs b = None"
    "main_step w b s = s\<lparr>panicked := True\<rparr>"
  | "main s = Entry" "runners b = []"
    "main_step w b s = s\<lparr>main := Returned None,
                          trace := trace s @ [Log ErrorLevel ''no runners, abort.'']\<rparr>"
  | "main s = Entry" "runners b \<noteq> []" "main_step w b s = s\<lparr>main := Before\<rparr>"
  | "main s = Before" "beforeRun b = None" "main_step w b s = s\<lparr>main := Group\<rparr>"
  | hook where "main s = Before" "beforeRun b = Some hook"
    "main_step w b s = s\<lparr>main := Before_wait, trace := trace s @ [BeforeRun_called]\<rparr>"
  | hook e where "main s = Before_wait" "beforeRun b = Some hook"
    "hook (ctx_done s) = Some (Some e)"
    "main_step w b s = s\<lparr>main := Returned (Some e),
                          trace := trace s @ [BeforeRun_returned (Some e)]\<rparr>"
  | hook where "main s = Before_wait" "beforeRun b = Some hook" "hook (ctx_done s) = Some None"
    "main_step w b s = s\<lparr>main := Group, trace := trace s @ [BeforeRun_returned None]\<rparr>"
  | "main s = Group" "main_step w b s = (go Wait_task s)\<lparr>main := Loop 0\<rparr>"
  | i c where "main s = Loop i" "i < length (runners b)" "gs b = Some c"
    "main_step w b s = s\<lparr>main := Add i, callbacks := callbacks s @ [i],
                          trace := trace s @ [AddShutdownCallback i]\<rparr>"
  | i where "main s = Loop i" "\<not> i < length (runners b)" "main_step w b s = s\<lparr>main := Barrier\<rparr>"
  | i where "main s = Add i"
    "main_step w b s = s\<lparr>main := Spawn i, waitStart := waitStart s + 1\<rparr>"
  | i where "main s = Spawn i" "main_step w b s = (go (Start_task i) s)\<lparr>main := Loop (i + 1)\<rparr>"
  | "main s = Barrier" "waitStart s = 0" "main_step w b s = s\<lparr>main := Started\<rparr>"
  | "main s = Started"
    "main_step w b s = s\<lparr>main := Spawn_onRun, trace := trace s @ info w ''bootstrap started.''\<rparr>"
  | "main s = Spawn_onRun" "main_step w b s = (go OnRun_task s)\<lparr>main := Eg_wait\<rparr>"
  | "main s = Eg_wait" "eg_wg s = 0"
    "main_step w b s = s\<lparr>main := Returned (result (eg_err s)), eg_cancelled := True\<rparr>"
proof (cases "main s")
  case Entry
  then show ?thesis
    using that(3,4) by (cases "runners b = []") (simp_all add: main_step_def)
next
  case Before
  then show ?thesis
    using that(5,6) by (cases "beforeRun b") (simp_all add: main_step_def)
next
  case Before_wait
  show ?thesis
  proof (cases "beforeRun b")
    case None
    with Before_wait that(1) show ?thesis by (simp add: main_step_def)
  next
    case (Some hook)
    show ?thesis
    proof (cases "hook (ctx_done s)")
      case None
      with Before_wait Some that(1) show ?thesis by (simp add: main_step_def)
    next
      case outer: (Some err)
      with Before_wait Some that(7,8) [of hook] show ?thesis
        by (cases err) (simp_all add: main_step_def)
    qed
  qed
next
  case Group
  then show ?thesis using that(9) by (simp add: main_step_def)
next
  case (Loop i)
  show ?thesis
  proof (cases "i < length (runners b)")
    case True
    with Loop that(2) [of i] that(10) [of i] show ?thesis
      by (cases "gs b") (simp_all add: main_step_def)
  next
    case False
    with Loop that(11) [of i] show ?thesis by (simp add: main_step_def)
  qed
next
  case (Add i)
  then show ?thesis using that(12) [of i] by (simp add: main_step_def)
next
  case (Spawn i)
  then show ?thesis using that(13) [of i] by (simp add: main_step_def)
next
  case Barrier
  then show ?thesis using that(1,14) by (cases "waitStart s = 0") (simp_all add: main_step_def)
next
  case Started
  then show ?thesis using that(15) by (simp add: main_step_def)
next
  case Spawn_onRun
  then show ?thesis using that(16) by (simp add: main_step_def)
next
  case Eg_wait
  then show ?thesis using that(1,17) by (cases "eg_wg s = 0") (simp_all add: main_step_def)
next
  case (Returned r)
  then show ?thesis using that(1) by (simp add: main_step_def)
qed


lemma task_step_cases [case_names stutter panic_wait panic_done wait_call wait_return start_log start_done
    start_call start_return onRun_nil onRun_call onRun_return]:
  obtains "task_step w b t s = s"
  | "t = Wait_task" "tasks s t = Some Spawned" "gs b = None"
    "task_step w b t s = s\<lparr>panicked := True\<rparr>"
  | i where "t = Start_task i" "i < length (runners b)" "tasks s t = Some Logged"
    "waitStart s = 0" "task_step w b t s = s\<lparr>panicked := True\<rparr>"
  | c where "t = Wait_task" "tasks s t = Some Spawned" "gs b = Some c"
    "task_step w b t s = s\<lparr>tasks := (tasks s)(t \<mapsto> Blocked), trace := trace s @ [Wait_called]\<rparr>"
  | c err where "t = Wait_task" "tasks s t = Some Blocked" "gs b = Some c"
    "Wait w c (egCtx_done s) = Some err" "task_step w b t s = finish t err s"
  | i where "t = Start_task i" "i < length (runners b)" "tasks s t = Some Spawned"
    "task_step w b t s = s\<lparr>tasks := (tasks s)(t \<mapsto> Logged),
        trace := trace s @ info w (''Starting runner: '' @ Name (runners b ! i))\<rparr>"
  | i where "t = Start_task i" "i < length (runners b)" "tasks s t = Some Logged"
    "waitStart s \<noteq> 0"
    "task_step w b t s = s\<lparr>tasks := (tasks s)(t \<mapsto> Confirmed), waitStart := waitStart s - 1,
        trace := trace s @ [WaitStart_Done i]\<rparr>"
  | i where "t = Start_task i" "i < length (runners b)" "tasks s t = Some Confirmed"
    "task_step w b t s = s\<lparr>tasks := (tasks s)(t \<mapsto> Blocked), trace := trace s @ [Run_called i]\<rparr>"
  | i err where "t = Start_task i" "i < length (runners b)" "tasks s t = Some Blocked"
    "Run (runners b ! i) (egCtx_done s) = Some err"
    "task_step w b t s
       = finish t (wrap err (''starting '' @ Name (runners b ! i) @ '' failed'')) s"
  | "t = OnRun_task" "tasks s t = Some Spawned" "onRun b = None"
    "task_step w b t s = finish t None s"
  | fn where "t = OnRun_task" "tasks s t = Some Spawned" "onRun b = Some fn"
    "task_step w b t s = s\<lparr>tasks := (tasks s)(t \<mapsto> Blocked), trace := trace s @ [OnRun_called]\<rparr>"
  | fn err where "t = OnRun_task" "tasks s t = Some Blocked" "onRun b = Some fn"
    "fn (egCtx_done s) = Some err" "task_step w b t s = finish t (wrap err ''onRun err'') s"
proof (cases "tasks s t")
  case None
  with that(1) show ?thesis by (simp add: task_step_def)
next
  case (Some p)
  show ?thesis
  proof (cases t)
    case Wait_task
    show ?thesis
    proof (cases "gs b")
      case None
      with Some Wait_task that(1,2) show ?thesis
        by (cases "p = Spawned") (simp_all add: task_step_def)
    next
      case gs: (Some c)
      show ?thesis
      proof (cases p)
        case Spawned
        with Some Wait_task gs that(4) [of c] show ?thesis by (simp add: task_step_def)
      next
        case Blocked
        with Some Wait_task gs that(1) that(5) [of c] show ?thesis
          by (cases "Wait w c (egCtx_done s)") (simp_all add: task_step_def)
      qed (use Some Wait_task gs that(1) in \<open>simp_all add: task_step_def\<close>)
    qed
  next
    case (Start_task i)
    show ?thesis
    proof (cases "i < length (runners b)")
      case False
      with Some Start_task that(1) show ?thesis by (simp add: task_step_def)
    next
      case True
      show ?thesis
      proof (cases p)
        case Spawned
        with Some Start_task True that(6) [of i] show ?thesis by (simp add: task_step_def)
      next
        case Logged
        with Some Start_task True that(3) [of i] that(7) [of i] show ?thesis
          by (cases "waitStart s = 0") (simp_all add: task_step_def)
      next
        case Confirmed
        with Some Start_task True that(8) [of i] show ?thesis by (simp add: task_step_def)
      next
        case Blocked
        with Some Start_task True that(1) that(9) [of i] show ?thesis
          by (cases "Run (runners b ! i) (egCtx_done s)") (simp_all add: task_step_def)
      next
        case Finished
        with Some Start_task True that(1) show ?thesis by (simp add: task_step_def)
      qed
    qed
  next
    case OnRun_task
    show ?thesis
    proof (cases "onRun b")
      case None
      with Some OnRun_task that(1,10) show ?thesis
        by (cases "p = Spawned") (simp_all add: task_step_def)
    next
      case fn: (Some fn)
      show ?thesis
      proof (cases p)
        case Spawned
        with Some OnRun_task fn that(11) [of fn] show ?thesis by (simp add: task_step_def)
      next
        case Blocked
        with Some OnRun_task fn that(1) that(12) [of fn] show ?thesis
          by (cases "fn (egCtx_done s)") (simp_all add: task_step_def)
      qed (use Some OnRun_task fn that(1) in \<open>simp_all add: task_step_def\<close>)
    qed
  qed
qed


lemma step_cases [case_names stutter panic_register panic_wait panic_done cancel shutdown abort enter no_hook call_hook hook_fails hook_ok group register leave add spawn barrier started spawn_onRun return wait_call wait_return start_log start_done start_call start_return onRun_nil onRun_call onRun_return]:
  obtains "step w b s th = s"
  | i where "\<not> panicked s" "th = Main" "main s = Loop i" "i < length (runners b)" "gs b = None"
    "step w b s th = s\<lparr>panicked := True\<rparr>"
  | t where "\<not> panicked s" "th = Task t" "t = Wait_task" "tasks s t = Some Spawned" "gs b = None"
    "step w b s th = s\<lparr>panicked := True\<rparr>"
  | t i where "\<not> panicked s" "th = Task t" "t = Start_task i" "i < length (runners b)"
    "tasks s t = Some Logged" "waitStart s = 0" "step w b s th = s\<lparr>panicked := True\<rparr>"
  | "\<not> panicked s" "th = Cancel" "step w b s th = s\<lparr>ctx_done := True\<rparr>"
  | k reason c where "\<not> panicked s" "th = Shutdown k reason" "gs b = Some c"
    "shutting_down w c s" "k < length (callbacks s)"
    "callbacks s ! k < length (runners b)" "k \<notin> called s"
    "step w b s th = s\<lparr>called := insert k (called s),
                        trace := trace s @ callback w b (callbacks s ! k) reason
                                 @ handled c (callback_result b (callbacks s ! k))\<rparr>"
  | "\<not> panicked s" "th = Main" "main s = Entry" "runners b = []"
    "step w b s th = s\<lparr>main := Returned None,
                          trace := trace s @ [Log ErrorLevel ''no runners, abort.'']\<rparr>"
  | "\<not> panicked s" "th = Main" "main s = Entry" "runners b \<noteq> []"
    "step w b s th = s\<lparr>main := Before\<rparr>"
  | "\<not> panicked s" "th = Main" "main s = Before" "beforeRun b = None"
    "step w b s th = s\<lparr>main := Group\<rparr>"
  | hook where "\<not> panicked s" "th = Main" "main s = Before" "beforeRun b = Some hook"
    "step w b s th = s\<lparr>main := Before_wait, trace := trace s @ [BeforeRun_called]\<rparr>"
  | hook e where "\<not> panicked s" "th = Main" "main s = Before_wait" "beforeRun b = Some hook" "hook (ctx_done s) = Some (Some e)"
    "step w b s th = s\<lparr>main := Returned (Some e),
                          trace := trace s @ [BeforeRun_returned (Some e)]\<rparr>"
  | hook where "\<not> panicked s" "th = Main" "main s = Before_wait" "beforeRun b = Some hook" "hook (ctx_done s) = Some None"
    "step w b s th = s\<lparr>main := Group, trace := trace s @ [BeforeRun_returned None]\<rparr>"
  | "\<not> panicked s" "th = Main" "main s = Group"
    "step w b s th = (go Wait_task s)\<lparr>main := Loop 0\<rparr>"
  | i c where "\<not> panicked s" "th = Main" "main s = Loop i" "i < length (runners b)" "gs b = Some c"
    "step w b s th = s\<lparr>main := Add i, callbacks := callbacks s @ [i],
                          trace := trace s @ [AddShutdownCallback i]\<rparr>"
  | i where "\<not> panicked s" "th = Main" "main s = Loop i" "\<not> i < length (runners b)"
    "step w b s th = s\<lparr>main := Barrier\<rparr>"
  | i where "\<not> panicked s" "th = Main" "main s = Add i"
    "step w b s th = s\<lparr>main := Spawn i, waitStart := waitStart s + 1\<rparr>"
  | i where "\<not> panicked s" "th = Main" "main s = Spawn i"
    "step w b s th = (go (Start_task i) s)\<lparr>main := Loop (i + 1)\<rparr>"
  | "\<not> panicked s" "th = Main" "main s = Barrier" "waitStart s = 0"
    "step w b s th = s\<lparr>main := Started\<rparr>"
  | "\<not> panicked s" "th = Main" "main s = Started"
    "step w b s th = s\<lparr>main := Spawn_onRun, trace := trace s @ info w ''bootstrap started.''\<rparr>"
  | "\<not> panicked s" "th = Main" "main s = Spawn_onRun"
    "step w b s th = (go OnRun_task s)\<lparr>main := Eg_wait\<rparr>"
  | "\<not> panicked s" "th = Main" "main s = Eg_wait" "eg_wg s = 0"
    "step w b s th = s\<lparr>main := Returned (result (eg_err s)), eg_cancelled := True\<rparr>"
  | t c where "\<not> panicked s" "th = Task t" "t = Wait_task" "tasks s t = Some Spawned" "gs b = Some c"
    "step w b s th = s\<lparr>tasks := (tasks s)(t \<mapsto> Blocked), trace := trace s @ [Wait_called]\<rparr>"
  | t c err where "\<not> panicked s" "th = Task t" "t = Wait_task" "tasks s t = Some Blocked" "gs b = Some c" "Wait w c (egCtx_done s) = Some err"
    "step w b s th = finish t err s"
  | t i where "\<not> panicked s" "th = Task t" "t = Start_task i" "i < length (runners b)" "tasks s t = Some Spawned"
    "step w b s th = s\<lparr>tasks := (tasks s)(t \<mapsto> Logged),
        trace := trace s @ info w (''Starting runner: '' @ Name (runners b ! i))\<rparr>"
  | t i where "\<not> panicked s" "th = Task t" "t = Start_task i" "i < length (runners b)" "tasks s t = Some Logged" "waitStart s \<noteq> 0"
    "step w b s th = s\<lparr>tasks := (tasks s)(t \<mapsto> Confirmed), waitStart := waitStart s - 1,
        trace := trace s @ [WaitStart_Done i]\<rparr>"
  | t i where "\<not> panicked s" "th = Task t" "t = Start_task i" "i < length (runners b)" "tasks s t = Some Confirmed"
    "step w b s th = s\<lparr>tasks := (tasks s)(t \<mapsto> Blocked), trace := trace s @ [Run_called i]\<rparr>"
  | t i err where "\<not> panicked s" "th = Task t" "t = Start_task i" "i < length (runners b)" "tasks s t = Some Blocked" "Run (runners b ! i) (egCtx_done s) = Some err"
    "step w b s th = finish t (wrap err (''starting '' @ Name (runners b ! i) @ '' failed'')) s"
  | t where "\<not> panicked s" "th = Task t" "t = OnRun_task" "tasks s t = Some Spawned" "onRun b = None"
    "step w b s th = finish t None s"
  | t fn where "\<not> panicked s" "th = Task t" "t = OnRun_task" "tasks s t = Some Spawned" "onRun b = Some fn"
    "step w b s th = s\<lparr>tasks := (tasks s)(t \<mapsto> Blocked), trace := trace s @ [OnRun_called]\<rparr>"
  | t fn err where "\<not> panicked s" "th = Task t" "t = OnRun_task" "tasks s t = Some Blocked" "onRun b = Some fn" "fn (egCtx_done s) = Some err"
    "step w b s th = finish t (wrap err ''onRun err'') s"
proof (cases "panicked s")
  case True
  then show ?thesis using that(1) by (simp add: step_def)
next
  case False
  show ?thesis
  proof (cases th)
    case Main
    with False have eq: "step w b s th = main_step w b s"
      by (simp add: step_def)
    show ?thesis
    proof (cases w b s rule: main_step_cases)
      case stutter
      with eq that(1) show ?thesis by simp
    next
      case (panic i)
      with eq that(2) [of i] False Main show ?thesis by simp
    next
      case abort
      with eq False Main that(7) show ?thesis by simp
    next
      case enter
      with eq False Main that(8) show ?thesis by simp
    next
      case no_hook
      with eq False Main that(9) show ?thesis by simp
    next
      case (call_hook hook)
      with eq False Main that(10) show ?thesis by simp
    next
      case (hook_fails hook e)
      with eq False Main that(11) show ?thesis by simp
    next
      case (hook_ok hook)
      with eq False Main that(12) show ?thesis by simp
    next
      case group
      with eq False Main that(13) show ?thesis by simp
    next
      case (register i c)
      with eq False Main that(14) show ?thesis by simp
    next
      case (leave i)
      with eq False Main that(15) show ?thesis by simp
    next
      case (add i)
      with eq False Main that(16) show ?thesis by simp
    next
      case (spawn i)
      with eq False Main that(17) show ?thesis by simp
    next
      case barrier
      with eq False Main that(18) show ?thesis by simp
    next
      case started
      with eq False Main that(19) show ?thesis by simp
    next
      case spawn_onRun
      with eq False Main that(20) show ?thesis by simp
    next
      case return
      with eq False Main that(21) show ?thesis by simp
    qed
  next
    case (Task t)
    with False have eq: "step w b s th = task_step w b t s"
      by (simp add: step_def)
    show ?thesis
    proof (cases w b t s rule: task_step_cases)
      case stutter
      with eq that(1) show ?thesis by simp
    next
      case panic_wait
      with eq that(3) False Task show ?thesis by simp
    next
      case (panic_done i)
      with eq that(4) False Task show ?thesis by simp
    next
      case (wait_call c)
      with eq False Task that(22) show ?thesis by simp
    next
      case (wait_return c err)
      with eq False Task that(23) show ?thesis by simp
    next
      case (start_log i)
      with eq False Task that(24) show ?thesis by simp
    next
      case (start_done i)
      with eq False Task that(25) show ?thesis by simp
    next
      case (start_call i)
      with eq False Task that(26) show ?thesis by simp
    next
      case (start_return i err)
      with eq False Task that(27) show ?thesis by simp
    next
      case onRun_nil
      with eq False Task that(28) show ?thesis by simp
    next
      case (onRun_call fn)
      with eq False Task that(29) show ?thesis by simp
    next
      case (onRun_return fn err)
      with eq False Task that(30) show ?thesis by simp
    qed
  next
    case (Shutdown k reason)
    with False have eq: "step w b s th = shutdown_step w b k reason s"
      by (simp add: step_def)
    show ?thesis
    proof (cases "gs b")
      case None
      with eq that(1) show ?thesis
        by (simp add: shutdown_step_def)
    next
      case (Some c)
      show ?thesis
      proof (cases "shutting_down w c s \<and> k < length (callbacks s)
                    \<and> callbacks s ! k < length (runners b) \<and> k \<notin> called s")
        case True
        with eq False Shutdown Some that(6) [of k reason c] show ?thesis
          by (simp add: shutdown_step_def)
      next
        case False
        with eq Some that(1) show ?thesis
          by (simp add: shutdown_step_def)
      qed
    qed
  next
    case Cancel
    with False that(5) show ?thesis by (simp add: step_def)
  qed
qed

section \<open>What holds in every state Run reaches\<close>

lemma control_finish:
  assumes "control b s" and "tasks s t = Some p"
  shows "control b (finish t err s)"
proof -
  from assms have "tasks s Wait_task \<noteq> None"
    by (auto simp: control_def pristine_def split: if_splits)
  with assms show ?thesis
    by (auto simp: control_def finish_def Let_def)
qed

lemma control_progress:
  assumes "control b s" and "tasks s t = Some p"
    and "main s' = main s" and "tasks s' = (tasks s)(t \<mapsto> p')" and "callbacks s' = callbacks s"
    and "eg_wg s' = eg_wg s"
  shows "control b s'"
proof -
  from assms have "tasks s Wait_task \<noteq> None"
    by (auto simp: control_def pristine_def split: if_splits)
  with assms show ?thesis
    by (auto simp: control_def)
qed

lemma control_same:
  assumes "control b s"
    and "main s' = main s" and "tasks s' = tasks s" and "callbacks s' = callbacks s"
    and "eg_wg s' = eg_wg s" and "waitStart s' = waitStart s" and "eg_err s' = eg_err s"
  shows "control b s'"
  using assms by (auto simp: control_def pristine_def split: if_splits)


lemma control_init: "control b init"
  by (simp add: control_def pristine_def init_def)

lemma control_step:
  assumes "control b s"
  shows "control b (step w b s th)"
proof (cases rule: step_cases [where w = w and b = b and s = s and th = th])
  case stutter
  with assms show ?thesis by simp
next
  case (panic_register i)
  with assms show ?thesis by (auto intro: control_same)
next
  case (panic_wait t)
  with assms show ?thesis by (auto intro: control_same)
next
  case (panic_done t i)
  with assms show ?thesis by (auto intro: control_same)
next
  case cancel
  with assms show ?thesis by (auto intro: control_same)
next
  case (shutdown k reason c)
  with assms show ?thesis by (auto intro: control_same)
next
  case abort
  with assms show ?thesis by (auto simp: control_def pristine_def split: if_splits)
next
  case enter
  with assms show ?thesis by (auto simp: control_def pristine_def split: if_splits)
next
  case no_hook
  with assms show ?thesis by (auto simp: control_def pristine_def split: if_splits)
next
  case (call_hook hook)
  with assms show ?thesis by (auto simp: control_def pristine_def split: if_splits)
next
  case (hook_fails hook e)
  with assms show ?thesis by (auto simp: control_def pristine_def split: if_splits)
next
  case (hook_ok hook)
  with assms show ?thesis by (auto simp: control_def pristine_def split: if_splits)
next
  case group
  with assms show ?thesis by (auto simp: control_def pristine_def go_def split: if_splits)
next
  case (register i c)
  with assms show ?thesis by (auto simp: control_def pristine_def split: if_splits)
next
  case (leave i)
  with assms show ?thesis by (auto simp: control_def pristine_def split: if_splits)
next
  case (add i)
  with assms show ?thesis by (auto simp: control_def pristine_def split: if_splits)
next
  case (spawn i)
  with assms show ?thesis by (auto simp: control_def pristine_def go_def split: if_splits)
next
  case barrier
  with assms show ?thesis by (auto simp: control_def pristine_def split: if_splits)
next
  case started
  with assms show ?thesis by (auto simp: control_def pristine_def split: if_splits)
next
  case spawn_onRun
  with assms show ?thesis by (auto simp: control_def pristine_def go_def split: if_splits)
next
  case return
  with assms show ?thesis by (auto simp: control_def pristine_def split: if_splits)
next
  case (wait_call t c)
  with assms show ?thesis by (auto intro: control_progress)
next
  case (wait_return t c err)
  with assms show ?thesis by (auto intro: control_finish)
next
  case (start_log t i)
  with assms show ?thesis by (auto intro: control_progress)
next
  case (start_done t i)
  with assms show ?thesis by (auto intro: control_progress)
next
  case (start_call t i)
  with assms show ?thesis by (auto intro: control_progress)
next
  case (start_return t i err)
  with assms show ?thesis by (auto intro: control_finish)
next
  case onRun_nil
  with assms show ?thesis by (auto intro: control_finish)
next
  case (onRun_call t fn)
  with assms show ?thesis by (auto intro: control_progress)
next
  case (onRun_return t fn err)
  with assms show ?thesis by (auto intro: control_finish)
qed


lemma live_upd:
  assumes "tasks s' = (tasks s)(t \<mapsto> p)"
  shows "live s' = (if p = Finished then live s - {t} else insert t (live s))"
  using assms by (auto simp: live_def)

lemma unconfirmed_upd:
  assumes "tasks s' = (tasks s)(t \<mapsto> p)"
  shows "unconfirmed s' =
           (case t of
              Start_task i \<Rightarrow>
                if p = Spawned \<or> p = Logged then insert i (unconfirmed s) else unconfirmed s - {i}
            | _ \<Rightarrow> unconfirmed s)"
  using assms by (auto simp: unconfirmed_def split: task.splits)

lemma live_same: "tasks s' = tasks s \<Longrightarrow> live s' = live s"
  by (simp add: live_def)

lemma unconfirmed_same: "tasks s' = tasks s \<Longrightarrow> unconfirmed s' = unconfirmed s"
  by (simp add: unconfirmed_def)

lemma counters_same:
  assumes "counters s"
    and "main s' = main s" and "tasks s' = tasks s" and "eg_wg s' = eg_wg s"
    and "waitStart s' = waitStart s"
  shows "counters s'"
  using assms by (simp add: counters_def live_same [of s' s] unconfirmed_same [of s' s])

lemma counters_init: "counters init"
  by (simp add: counters_def init_def live_def unconfirmed_def)

text \<open>A main step that starts nothing.\<close>

lemma counters_move:
  assumes "counters s"
    and "tasks s' = tasks s" and "eg_wg s' = eg_wg s" and "waitStart s' = waitStart s"
    and "\<forall>i. main s \<noteq> Spawn i" and "\<forall>i. main s' \<noteq> Spawn i"
  shows "counters s'"
  using assms by (auto simp: counters_def live_same [of s' s] unconfirmed_same [of s' s] split: pc.splits)

lemma counters_go:
  assumes "counters s" and "tasks s t = None" and "\<forall>i. main s \<noteq> Spawn i" and "\<forall>i. t \<noteq> Start_task i"
    and that: "\<forall>i. pc \<noteq> Spawn i"
  shows "counters ((go t s)\<lparr>main := pc\<rparr>)"
proof -
  let ?s' = "(go t s)\<lparr>main := pc\<rparr>"
  have t: "tasks ?s' = (tasks s)(t \<mapsto> Spawned)"
    by (simp add: go_def)
  from assms(2) have "t \<notin> live s"
    by (simp add: live_def)
  with assms(1) have "finite (live ?s') \<and> eg_wg ?s' = card (live ?s')"
    unfolding live_upd [OF t] by (simp add: counters_def go_def)
  moreover from assms(4) have "unconfirmed ?s' = unconfirmed s"
    unfolding unconfirmed_upd [OF t] by (cases t) simp_all
  ultimately show ?thesis
    using assms(1,3) that by (auto simp: counters_def go_def split: pc.splits)
qed

lemma counters_spawn:
  assumes "counters s" and "tasks s (Start_task i) = None" and "main s = Spawn i"
  shows "counters ((go (Start_task i) s)\<lparr>main := Loop j\<rparr>)"
proof -
  let ?s' = "(go (Start_task i) s)\<lparr>main := Loop j\<rparr>"
  have t: "tasks ?s' = (tasks s)(Start_task i \<mapsto> Spawned)"
    by (simp add: go_def)
  from assms(2) have "Start_task i \<notin> live s" "i \<notin> unconfirmed s"
    by (simp_all add: live_def unconfirmed_def)
  with assms(1,3) show ?thesis
    unfolding counters_def live_upd [OF t] unconfirmed_upd [OF t] by (simp add: go_def)
qed

lemma counters_finish:
  assumes "counters s" and "tasks s t = Some p" and "p \<noteq> Finished" and "p \<noteq> Spawned" "p \<noteq> Logged"
  shows "counters (finish t err s)"
proof -
  let ?s' = "finish t err s"
  have t: "tasks ?s' = (tasks s)(t \<mapsto> Finished)"
    by (simp add: finish_def Let_def)
  have m: "main ?s' = main s" "waitStart ?s' = waitStart s" "eg_wg ?s' = eg_wg s - 1"
    by (simp_all add: finish_def Let_def)
  from assms(2,3) have "t \<in> live s"
    by (simp add: live_def)
  moreover from assms(2,4,5) have "unconfirmed ?s' = unconfirmed s"
    unfolding unconfirmed_upd [OF t] by (cases t) (auto simp: unconfirmed_def)
  ultimately show ?thesis
    using assms(1) unfolding counters_def live_upd [OF t] m by simp
qed

lemma counters_finish_onRun:
  assumes "counters s" and "tasks s OnRun_task = Some p" and "p \<noteq> Finished"
  shows "counters (finish OnRun_task err s)"
proof -
  let ?s' = "finish OnRun_task err s"
  have t: "tasks ?s' = (tasks s)(OnRun_task \<mapsto> Finished)"
    by (simp add: finish_def Let_def)
  have m: "main ?s' = main s" "waitStart ?s' = waitStart s" "eg_wg ?s' = eg_wg s - 1"
    by (simp_all add: finish_def Let_def)
  from assms(2,3) have "OnRun_task \<in> live s"
    by (simp add: live_def)
  moreover have "unconfirmed ?s' = unconfirmed s"
    unfolding unconfirmed_upd [OF t] by simp
  ultimately show ?thesis
    using assms(1) unfolding counters_def live_upd [OF t] m by simp
qed

text \<open>A task moves on without returning and without calling \<open>waitStart.Done\<close>.\<close>

lemma counters_progress:
  assumes "counters s" and "tasks s t = Some p" and "p \<noteq> Finished" and "p' \<noteq> Finished"
    and "(\<exists>i. t = Start_task i) \<longrightarrow> (p = Spawned \<or> p = Logged) = (p' = Spawned \<or> p' = Logged)"
    and "main s' = main s" and "tasks s' = (tasks s)(t \<mapsto> p')"
    and "eg_wg s' = eg_wg s" and "waitStart s' = waitStart s"
  shows "counters s'"
proof -
  from assms(2,3) have "t \<in> live s"
    by (simp add: live_def)
  with assms(4) have "live s' = live s"
    unfolding live_upd [OF assms(7)] by auto
  moreover from assms(2,5) have "unconfirmed s' = unconfirmed s"
    unfolding unconfirmed_upd [OF assms(7)] by (cases t) (auto simp: unconfirmed_def)
  ultimately show ?thesis
    using assms(1,6,8,9) by (simp add: counters_def)
qed

lemma counters_done:
  assumes "counters s" and "tasks s (Start_task i) = Some Logged" and "waitStart s \<noteq> 0"
    and "main s' = main s" and "tasks s' = (tasks s)(Start_task i \<mapsto> Confirmed)"
    and "eg_wg s' = eg_wg s" and "waitStart s' = waitStart s - 1"
  shows "counters s'"
proof -
  from assms(2) have "Start_task i \<in> live s" "i \<in> unconfirmed s"
    by (simp_all add: live_def unconfirmed_def)
  then have "live s' = live s" "unconfirmed s' = unconfirmed s - {i}"
    unfolding live_upd [OF assms(5)] unconfirmed_upd [OF assms(5)] by auto
  moreover from assms(1) \<open>i \<in> unconfirmed s\<close> have "0 < card (unconfirmed s)"
    by (auto simp: counters_def card_gt_0_iff)
  ultimately show ?thesis
    using assms(1,4,6,7) \<open>i \<in> unconfirmed s\<close> by (simp add: counters_def)
qed


lemma control_not_started:
  assumes "control b s"
  shows "main s = Group \<Longrightarrow> tasks s Wait_task = None"
    and "main s = Spawn i \<Longrightarrow> tasks s (Start_task i) = None"
    and "main s = Spawn_onRun \<Longrightarrow> tasks s OnRun_task = None"
  using assms by (auto simp: control_def split: if_splits)

lemma counters_step:
  assumes "control b s" and "counters s"
  shows "counters (step w b s th)"
proof (cases rule: step_cases [where w = w and b = b and s = s and th = th])
  case stutter
  with assms show ?thesis by simp
next
  case (panic_register i)
  with assms show ?thesis by (auto intro: counters_same)
next
  case (panic_wait t)
  with assms show ?thesis by (auto intro: counters_same)
next
  case (panic_done t i)
  with assms show ?thesis by (auto intro: counters_same)
next
  case cancel
  with assms show ?thesis by (auto intro: counters_same)
next
  case (shutdown k reason c)
  with assms show ?thesis by (auto intro: counters_same)
next
  case abort
  with assms(2) show ?thesis by (auto intro: counters_move)
next
  case enter
  with assms(2) show ?thesis by (auto intro: counters_move)
next
  case no_hook
  with assms(2) show ?thesis by (auto intro: counters_move)
next
  case (call_hook hook)
  with assms(2) show ?thesis by (auto intro: counters_move)
next
  case (hook_fails hook e)
  with assms(2) show ?thesis by (auto intro: counters_move)
next
  case (hook_ok hook)
  with assms(2) show ?thesis by (auto intro: counters_move)
next
  case group
  with assms(2) control_not_started(1) [OF assms(1)] show ?thesis
    by (simp add: counters_go)
next
  case (register i c)
  with assms(2) show ?thesis by (auto intro: counters_move)
next
  case (leave i)
  with assms(2) show ?thesis by (auto intro: counters_move)
next
  case (add i)
  with assms(2) show ?thesis
    by (simp add: counters_def live_def unconfirmed_def)
next
  case (spawn i)
  with assms(2) control_not_started(2) [OF assms(1)] show ?thesis
    by (simp add: counters_spawn)
next
  case barrier
  with assms(2) show ?thesis by (auto intro: counters_move)
next
  case started
  with assms(2) show ?thesis by (auto intro: counters_move)
next
  case spawn_onRun
  with assms(2) control_not_started(3) [OF assms(1)] show ?thesis
    by (simp add: counters_go)
next
  case return
  with assms(2) show ?thesis by (auto intro: counters_move)
next
  case (wait_call t c)
  with assms(2) show ?thesis by (auto intro: counters_progress)
next
  case (wait_return t c err)
  with assms(2) show ?thesis by (auto intro: counters_finish)
next
  case (start_log t i)
  with assms(2) show ?thesis by (auto intro: counters_progress)
next
  case (start_done t i)
  with assms(2) show ?thesis by (auto intro: counters_done)
next
  case (start_call t i)
  with assms(2) show ?thesis by (auto intro: counters_progress)
next
  case (start_return t i err)
  with assms(2) show ?thesis by (auto intro: counters_finish)
next
  case onRun_nil
  with assms(2) show ?thesis by (auto intro: counters_finish_onRun)
next
  case (onRun_call t fn)
  with assms(2) show ?thesis by (auto intro: counters_progress)
next
  case (onRun_return t fn err)
  with assms(2) show ?thesis by (auto intro: counters_finish)
qed

lemma reachable:
  "control b (bootstrap_Run w b sched) \<and> counters (bootstrap_Run w b sched)"
proof (induction sched rule: rev_induct)
  case Nil
  show ?case by (simp add: Run_Nil control_init counters_init)
next
  case (snoc th sched)
  then show ?case by (simp add: Run_snoc control_step counters_step)
qed

lemma go_fields:
  "main (go t s) = main s" "tasks (go t s) = (tasks s)(t \<mapsto> Spawned)"
  "trace (go t s) = trace s @ [Go t]" "callbacks (go t s) = callbacks s"
  "eg_err (go t s) = eg_err s" "eg_cancelled (go t s) = eg_cancelled s"
  "ctx_done (go t s) = ctx_done s" "panicked (go t s) = panicked s"
  by (simp_all add: go_def)

lemma finish_fields:
  "main (finish t err s) = main s" "tasks (finish t err s) = (tasks s)(t \<mapsto> Finished)"
  "trace (finish t err s) = trace s @ [Task_returned t err]"
  "callbacks (finish t err s) = callbacks s"
  "eg_err (finish t err s) = (if err \<noteq> None \<and> eg_err s = None then err else eg_err s)"
  "eg_cancelled (finish t err s) = (eg_cancelled s \<or> (err \<noteq> None \<and> eg_err s = None))"
  "ctx_done (finish t err s) = ctx_done s" "panicked (finish t err s) = panicked s"
  by (auto simp: finish_def Let_def)

lemma first_failure_append:
  "first_failure (tr @ tr') = (case first_failure tr of None \<Rightarrow> first_failure tr' | Some x \<Rightarrow> Some x)"
  by (induction tr rule: first_failure.induct) simp_all

lemma first_failure_info [simp]: "first_failure (info w msg) = None"
  by (simp add: info_def)

lemma first_failure_callback [simp]: "first_failure (callback w b i reason) = None"
  by (simp add: callback_def Let_def first_failure_append split: option.splits)

lemma handled_events:
  "ev \<in> set (handled c err) \<Longrightarrow> (\<exists>x. ev = Handled x) \<or> (\<exists>m. ev = Log ErrorLevel m)"
  by (auto simp: handled_def split: option.splits controller.splits shutdown_option.splits)

lemma first_failure_no_return:
  "\<forall>t err. Task_returned t err \<notin> set tr \<Longrightarrow> first_failure tr = None"
  by (induction tr rule: first_failure.induct) auto

lemma first_failure_handled [simp]: "first_failure (handled c err) = None"
  by (rule first_failure_no_return) (auto dest: handled_events)

lemma precedes_Nil: "precedes x y []"
  by (simp add: precedes_def)

lemma precedes_append:
  assumes "precedes x y tr" and "y \<in> set evs \<longrightarrow> x \<in> set tr"
  shows "precedes x y (tr @ evs)"
  unfolding precedes_def
proof (intro allI impI)
  fix pre post
  assume "tr @ evs = pre @ y # post"
  then obtain us where "tr = pre @ us \<and> us @ evs = y # post \<or> tr @ us = pre \<and> evs = us @ y # post"
    by (auto simp: append_eq_append_conv2)
  then show "x \<in> set pre"
  proof
    assume a: "tr = pre @ us \<and> us @ evs = y # post"
    show ?thesis
    proof (cases us)
      case Nil
      with a assms(2) show ?thesis by auto
    next
      case (Cons u us')
      with a have "tr = pre @ y # us'" by simp
      with assms(1) show ?thesis by (simp add: precedes_def)
    qed
  next
    assume a: "tr @ us = pre \<and> evs = us @ y # post"
    then have "y \<in> set evs" by simp
    with assms(2) a show ?thesis by auto
  qed
qed

lemma errors_finish:
  assumes "errors s"
  shows "errors (finish t err s)"
  using assms
  by (cases err)
     (auto simp: errors_def finish_fields first_failure_append split: option.splits)

lemma errors_append:
  assumes "errors s" and "eg_err s' = eg_err s" and "eg_cancelled s \<longrightarrow> eg_cancelled s'"
    and "trace s' = trace s @ evs" and "first_failure evs = None"
  shows "errors s'"
  using assms by (auto simp: errors_def first_failure_append split: option.splits)

lemma errors_same:
  assumes "errors s" and "eg_err s' = eg_err s" and "eg_cancelled s \<longrightarrow> eg_cancelled s'"
    and "trace s' = trace s"
  shows "errors s'"
  using assms by (auto simp: errors_def)

lemma errors_step:
  assumes "errors s"
  shows "errors (step w b s th)"
proof (cases rule: step_cases [where w = w and b = b and s = s and th = th])
  case stutter
  with assms show ?thesis by simp
next
  case (wait_return t c err)
  with assms show ?thesis by (simp add: errors_finish)
next
  case (start_return t i err)
  with assms show ?thesis by (simp add: errors_finish)
next
  case (onRun_nil t)
  with assms show ?thesis by (simp add: errors_finish)
next
  case (onRun_return t fn err)
  with assms show ?thesis by (simp add: errors_finish)
qed (use assms in \<open>auto simp: errors_def go_fields first_failure_append split: option.splits\<close>)

lemma confirmed_upd:
  assumes "tasks s' = (tasks s)(t \<mapsto> p)"
  shows "confirmed s' i =
           (if t = Start_task i then p = Confirmed \<or> p = Blocked \<or> p = Finished
            else confirmed s i)"
  using assms by (simp add: confirmed_def)

lemma confirmed_same: "tasks s' = tasks s \<Longrightarrow> confirmed s' i = confirmed s i"
  by (simp add: confirmed_def)

lemma info_events: "ev \<in> set (info w msg) \<Longrightarrow> ev = Log InfoLevel msg"
  by (simp add: info_def split: if_splits)

lemma callback_events:
  "ev \<in> set (callback w b i reason) \<Longrightarrow>
     (\<exists>l m. ev = Log l m) \<or> ev = Stop_called i \<or> (\<exists>r. ev = Callback_returned i r)"
  by (auto simp: callback_def Let_def dest: info_events split: option.splits)

lemma count_info: "\<forall>l m. ev \<noteq> Log l m \<Longrightarrow> count_list (info w msg) ev = 0"
  by (auto simp: count_list_0_iff dest: info_events)

lemma count_callback:
  "\<forall>l m. ev \<noteq> Log l m \<Longrightarrow> \<forall>j. ev \<noteq> Stop_called j \<Longrightarrow> \<forall>j r. ev \<noteq> Callback_returned j r
   \<Longrightarrow> count_list (callback w b i reason) ev = 0"
  by (auto simp: count_list_0_iff dest: callback_events handled_events)

lemma count_handled:
  "\<forall>l m. ev \<noteq> Log l m \<Longrightarrow> \<forall>x. ev \<noteq> Handled x \<Longrightarrow> count_list (handled c err) ev = 0"
  by (auto simp: count_list_0_iff dest: handled_events)

lemma count_member: "count_list xs x = Suc n \<Longrightarrow> x \<in> set xs"
  by (cases "x \<in> set xs") (simp_all add: count_notin)

lemma signals_init: "signals init"
  by (simp add: signals_def init_def confirmed_def precedes_Nil)

lemma signals_step:
  assumes "control b s" and "signals s"
  shows "signals (step w b s th)"
  unfolding signals_def
proof (intro allI)
  fix i
  from assms(2) have cnt: "count_list (trace s) (WaitStart_Done i) = (if confirmed s i then 1 else 0)"
    and pre: "precedes (WaitStart_Done i) (Run_called i) (trace s)"
    by (simp_all add: signals_def)
  note start = control_not_started [OF assms(1)]
  show "count_list (trace (step w b s th)) (WaitStart_Done i)
          = (if confirmed (step w b s th) i then 1 else 0)
        \<and> precedes (WaitStart_Done i) (Run_called i) (trace (step w b s th))"
  proof (cases rule: step_cases [where w = w and b = b and s = s and th = th])
    case stutter
    with cnt pre show ?thesis by simp
  next
    case (shutdown k reason c)
    with cnt pre show ?thesis
      by (auto simp: confirmed_def count_callback count_handled intro!: precedes_append
               dest: callback_events handled_events)
  next
    case group
    with cnt pre start(1) show ?thesis
      by (auto simp: go_fields confirmed_def intro!: precedes_append)
  next
    case (spawn j)
    with cnt pre start(2) show ?thesis
      by (auto simp: go_fields confirmed_def intro!: precedes_append)
  next
    case spawn_onRun
    with cnt pre start(3) show ?thesis
      by (auto simp: go_fields confirmed_def intro!: precedes_append)
  next
    case started
    with cnt pre show ?thesis
      by (auto simp: confirmed_def count_info intro!: precedes_append dest: info_events)
  next
    case (start_log t j)
    with cnt pre show ?thesis
      by (auto simp: confirmed_def count_info intro!: precedes_append dest: info_events)
  next
    case (start_done t j)
    with cnt pre show ?thesis
      by (auto simp: confirmed_def intro!: precedes_append)
  next
    case (start_call t j)
    show ?thesis
    proof (cases "j = i")
      case True
      with start_call cnt have "WaitStart_Done i \<in> set (trace s)"
        by (auto simp: confirmed_def intro: count_member)
      with start_call cnt pre True show ?thesis
        by (auto simp: confirmed_def intro!: precedes_append)
    next
      case False
      with start_call cnt pre show ?thesis
        by (auto simp: confirmed_def intro!: precedes_append)
    qed
  next
    case (wait_return t c err)
    with cnt pre show ?thesis
      by (auto simp: finish_fields confirmed_def intro!: precedes_append)
  next
    case (start_return t j err)
    with cnt pre show ?thesis
      by (auto simp: finish_fields confirmed_def intro!: precedes_append)
  next
    case (onRun_nil t)
    with cnt pre show ?thesis
      by (auto simp: finish_fields confirmed_def intro!: precedes_append)
  next
    case (onRun_return t fn err)
    with cnt pre show ?thesis
      by (auto simp: finish_fields confirmed_def intro!: precedes_append)
  qed (use cnt pre in \<open>auto simp: confirmed_def intro!: precedes_append\<close>)
qed


lemma control_in_group:
  assumes "control b s" and "\<not> before_group (main s)" and "\<not> returned (main s)"
  shows "tasks s Wait_task \<noteq> None"
    and "callbacks s = [0..<registered (length (runners b)) (main s)]"
    and "(tasks s (Start_task j) \<noteq> None) = (j < spawned (length (runners b)) (main s))"
    and "(tasks s OnRun_task \<noteq> None) = (main s = Eg_wait)"
    and "in_range (length (runners b)) (main s)"
  using assms by (auto simp: control_def split: if_splits)

lemma control_before_group:
  assumes "control b s" and "before_group (main s)"
  shows "tasks s t = None" and "callbacks s = []"
  using assms by (auto simp: control_def pristine_def split: if_splits)

lemma registrations_init: "registrations init"
  by (simp add: registrations_def init_def precedes_Nil)

lemma registrations_step:
  assumes "control b s" and "registrations s"
  shows "registrations (step w b s th)"
  unfolding registrations_def
proof (intro allI)
  fix i
  from assms(2) have mem: "(AddShutdownCallback i \<in> set (trace s)) = (i \<in> set (callbacks s))"
    and pre: "precedes (AddShutdownCallback i) (Go (Start_task i)) (trace s)"
    by (simp_all add: registrations_def)
  show "(AddShutdownCallback i \<in> set (trace (step w b s th))) = (i \<in> set (callbacks (step w b s th)))
        \<and> precedes (AddShutdownCallback i) (Go (Start_task i)) (trace (step w b s th))"
  proof (cases rule: step_cases [where w = w and b = b and s = s and th = th])
    case stutter
    with mem pre show ?thesis by simp
  next
    case (shutdown k reason c)
    with mem pre show ?thesis
      by (auto intro!: precedes_append dest: callback_events handled_events)
  next
    case (spawn j)
    with control_in_group(2) [OF assms(1)] have "j \<in> set (callbacks s)"
      by simp
    with spawn mem pre show ?thesis
      by (auto simp: go_fields intro!: precedes_append)
  next
    case started
    with mem pre show ?thesis
      by (auto intro!: precedes_append dest: info_events)
  next
    case (start_log t j)
    with mem pre show ?thesis
      by (auto intro!: precedes_append dest: info_events)
  qed (use mem pre in \<open>auto simp: go_fields finish_fields intro!: precedes_append\<close>)
qed

lemma gate_init: "gate b init"
  by (simp add: gate_def init_def precedes_Nil)

lemma gate_step:
  assumes "control b s" and "gate b s"
  shows "gate b (step w b s th)"
proof (cases "beforeRun b")
  case None
  then show ?thesis by (simp add: gate_def)
next
  case (Some hook)
  with assms(2) have mem: "main s = Group \<or> tasks s Wait_task \<noteq> None
        \<Longrightarrow> BeforeRun_returned None \<in> set (trace s)"
    and pre: "\<And>i. precedes (BeforeRun_returned None) (Go (Start_task i)) (trace s)"
    by (simp_all add: gate_def)
  have "(main (step w b s th) = Group \<or> tasks (step w b s th) Wait_task \<noteq> None
           \<longrightarrow> BeforeRun_returned None \<in> set (trace (step w b s th)))
        \<and> (\<forall>i. precedes (BeforeRun_returned None) (Go (Start_task i)) (trace (step w b s th)))"
  proof (cases rule: step_cases [where w = w and b = b and s = s and th = th])
    case stutter
    with mem pre show ?thesis by auto
  next
    case (shutdown k reason c)
    with mem pre show ?thesis
      by (auto intro!: precedes_append dest: callback_events handled_events)
  next
    case abort
    with mem pre control_before_group(1) [OF assms(1), of Wait_task] show ?thesis
      by (auto intro!: precedes_append)
  next
    case enter
    with mem pre control_before_group(1) [OF assms(1), of Wait_task] show ?thesis
      by (auto intro!: precedes_append)
  next
    case no_hook
    with Some show ?thesis by simp
  next
    case (call_hook h)
    with mem pre control_before_group(1) [OF assms(1), of Wait_task] show ?thesis
      by (auto intro!: precedes_append)
  next
    case (hook_fails h e)
    with mem pre control_before_group(1) [OF assms(1), of Wait_task] show ?thesis
      by (auto intro!: precedes_append)
  next
    case (hook_ok h)
    with mem pre show ?thesis
      by (auto intro!: precedes_append)
  next
    case group
    with mem pre show ?thesis
      by (auto simp: go_fields intro!: precedes_append)
  next
    case (spawn j)
    with control_in_group(1) [OF assms(1)] mem have "BeforeRun_returned None \<in> set (trace s)"
      by simp
    with spawn mem pre show ?thesis
      by (auto simp: go_fields intro!: precedes_append)
  next
    case spawn_onRun
    with control_in_group(1) [OF assms(1)] mem have "BeforeRun_returned None \<in> set (trace s)"
      by simp
    with spawn_onRun mem pre show ?thesis
      by (auto simp: go_fields intro!: precedes_append)
  next
    case started
    with mem pre show ?thesis
      by (auto intro!: precedes_append dest: info_events)
  next
    case (start_log t j)
    with mem pre show ?thesis
      by (auto intro!: precedes_append dest: info_events)
  next
    case (register j c)
    with control_in_group(1) [OF assms(1)] mem pre show ?thesis
      by (auto intro!: precedes_append)
  next
    case (leave j)
    with control_in_group(1) [OF assms(1)] mem pre show ?thesis
      by (auto intro!: precedes_append)
  next
    case (add j)
    with control_in_group(1) [OF assms(1)] mem pre show ?thesis
      by (auto intro!: precedes_append)
  next
    case barrier
    with control_in_group(1) [OF assms(1)] mem pre show ?thesis
      by (auto intro!: precedes_append)
  next
    case return
    with control_in_group(1) [OF assms(1)] mem pre show ?thesis
      by (auto intro!: precedes_append)
  qed (use mem pre in \<open>auto simp: go_fields finish_fields intro!: precedes_append\<close>)
  with Some show ?thesis by (simp add: gate_def)
qed


lemma barrier_confirms:
  assumes "control b s" and "counters s" and "main s = Barrier" and "waitStart s = 0"
    and "i < length (runners b)"
  shows "confirmed s i"
proof -
  from assms(2,3,4) have "unconfirmed s = {}"
    by (auto simp: counters_def)
  moreover from control_in_group(3) [OF assms(1), of i] assms(3,5)
  obtain p where "tasks s (Start_task i) = Some p"
    by auto
  ultimately show ?thesis
    by (cases p) (auto simp: unconfirmed_def confirmed_def)
qed

lemma barrier_passed_init: "barrier_passed b init"
  by (simp add: barrier_passed_def init_def precedes_Nil)

lemma barrier_passed_step:
  assumes "control b s" and "counters s" and "signals s" and "barrier_passed b s"
  shows "barrier_passed b (step w b s th)"
proof -
  from assms(4) have conf: "main s = Started \<or> main s = Spawn_onRun \<or> tasks s OnRun_task \<noteq> None
        \<Longrightarrow> \<forall>i<length (runners b). confirmed s i"
    and pre: "\<And>i. i < length (runners b) \<Longrightarrow> precedes (WaitStart_Done i) (Go OnRun_task) (trace s)"
    by (simp_all add: barrier_passed_def)
  have sig: "confirmed s i \<Longrightarrow> WaitStart_Done i \<in> set (trace s)" for i
    using assms(3) by (auto simp: signals_def intro: count_member)
  note early = control_before_group(1) [OF assms(1), of OnRun_task]
  note later = control_in_group(4) [OF assms(1)]
  have "(main (step w b s th) = Started \<or> main (step w b s th) = Spawn_onRun
            \<or> tasks (step w b s th) OnRun_task \<noteq> None
           \<longrightarrow> (\<forall>i<length (runners b). confirmed (step w b s th) i))
        \<and> (\<forall>i<length (runners b). precedes (WaitStart_Done i) (Go OnRun_task) (trace (step w b s th)))"
  proof (cases rule: step_cases [where w = w and b = b and s = s and th = th])
    case stutter
    with conf pre show ?thesis by auto
  next
    case (shutdown k reason c)
    with conf pre show ?thesis
      by (auto simp: confirmed_def intro!: precedes_append dest: callback_events handled_events)
  next
    case abort
    with conf pre early show ?thesis
      by (auto simp: confirmed_def intro!: precedes_append)
  next
    case enter
    with conf pre early show ?thesis
      by (auto simp: confirmed_def intro!: precedes_append)
  next
    case no_hook
    with conf pre early show ?thesis
      by (auto simp: confirmed_def intro!: precedes_append)
  next
    case (call_hook h)
    with conf pre early show ?thesis
      by (auto simp: confirmed_def intro!: precedes_append)
  next
    case (hook_fails h e)
    with conf pre early show ?thesis
      by (auto simp: confirmed_def intro!: precedes_append)
  next
    case (hook_ok h)
    with conf pre early show ?thesis
      by (auto simp: confirmed_def intro!: precedes_append)
  next
    case group
    with conf pre early show ?thesis
      by (auto simp: go_fields confirmed_def intro!: precedes_append)
  next
    case (register j c)
    with conf pre later show ?thesis
      by (auto simp: confirmed_def intro!: precedes_append)
  next
    case (leave j)
    with conf pre later show ?thesis
      by (auto simp: confirmed_def intro!: precedes_append)
  next
    case (add j)
    with conf pre later show ?thesis
      by (auto simp: confirmed_def intro!: precedes_append)
  next
    case (spawn j)
    with conf pre later show ?thesis
      by (auto simp: go_fields confirmed_def intro!: precedes_append)
  next
    case barrier
    with barrier_confirms [OF assms(1,2)] have "\<forall>i<length (runners b). confirmed s i"
      by simp
    with barrier pre show ?thesis
      by (auto simp: confirmed_def)
  next
    case started
    with conf pre show ?thesis
      by (auto simp: confirmed_def intro!: precedes_append dest: info_events)
  next
    case spawn_onRun
    with conf have all: "\<forall>i<length (runners b). confirmed s i"
      by simp
    with sig have "\<forall>i<length (runners b). WaitStart_Done i \<in> set (trace s)"
      by simp
    with spawn_onRun all pre show ?thesis
      by (auto simp: go_fields confirmed_def intro!: precedes_append)
  next
    case return
    with conf pre show ?thesis
      by (auto simp: confirmed_def)
  next
    case (wait_call t c)
    with conf pre show ?thesis
      by (auto simp: confirmed_def intro!: precedes_append)
  next
    case (wait_return t c err)
    with conf pre show ?thesis
      by (auto simp: finish_fields confirmed_def intro!: precedes_append)
  next
    case (start_log t j)
    with conf pre have "main s = Started \<or> main s = Spawn_onRun \<or> tasks s OnRun_task \<noteq> None
        \<Longrightarrow> False"
      by (auto simp: confirmed_def)
    with start_log pre show ?thesis
      by (auto intro!: precedes_append dest: info_events)
  next
    case (start_done t j)
    with conf pre show ?thesis
      by (auto simp: confirmed_def intro!: precedes_append)
  next
    case (start_call t j)
    with conf pre show ?thesis
      by (auto simp: confirmed_def intro!: precedes_append)
  next
    case (start_return t j err)
    with conf pre show ?thesis
      by (auto simp: finish_fields confirmed_def intro!: precedes_append)
  next
    case (onRun_nil t)
    with conf pre show ?thesis
      by (auto simp: finish_fields confirmed_def intro!: precedes_append)
  next
    case (onRun_call t fn)
    with conf pre show ?thesis
      by (auto simp: confirmed_def intro!: precedes_append)
  next
    case (onRun_return t fn err)
    with conf pre show ?thesis
      by (auto simp: finish_fields confirmed_def intro!: precedes_append)
  qed (use conf pre in \<open>auto simp: confirmed_def\<close>)
  then show ?thesis by (simp add: barrier_passed_def)
qed


lemma hook_calls_init: "hook_calls b init"
  by (simp add: hook_calls_def init_def)

lemma hook_calls_step:
  assumes "control b s" and "hook_calls b s"
  shows "hook_calls b (step w b s th)"
proof -
  from assms(2) have bf: "count_list (trace s) BeforeRun_called
        = (if beforeRun b \<noteq> None \<and> runners b \<noteq> [] \<and> main s \<noteq> Entry \<and> main s \<noteq> Before
           then 1 else 0)"
    and on: "count_list (trace s) OnRun_called
        = (if onRun b \<noteq> None
              \<and> (tasks s OnRun_task = Some Blocked \<or> tasks s OnRun_task = Some Finished)
           then 1 else 0)"
    and nr: "runners b = [] \<longrightarrow> main s = Entry \<or> main s = Returned None"
    by (simp_all add: hook_calls_def)
  note start = control_not_started [OF assms(1)]
  show ?thesis
  proof (cases rule: step_cases [where w = w and b = b and s = s and th = th])
    case stutter
    with bf on nr show ?thesis by (simp add: hook_calls_def)
  next
    case (shutdown k reason c)
    with bf on nr show ?thesis
      by (simp add: hook_calls_def count_callback count_handled)
  next
    case started
    with bf on nr show ?thesis
      by (simp add: hook_calls_def count_info)
  next
    case (start_log t j)
    with bf on nr show ?thesis
      by (simp add: hook_calls_def count_info)
  next
    case group
    with bf on nr start(1) show ?thesis
      by (simp add: hook_calls_def go_fields)
  next
    case (spawn j)
    with bf on nr start(2) show ?thesis
      by (simp add: hook_calls_def go_fields)
  next
    case spawn_onRun
    with bf on nr start(3) show ?thesis
      by (simp add: hook_calls_def go_fields)
  qed (use bf on nr in \<open>auto simp: hook_calls_def finish_fields\<close>)
qed

lemma genuine_info: "ev \<in> set (info w msg) \<Longrightarrow> genuine w' b ev"
  by (auto simp: genuine_def dest: info_events)

lemma genuine_callback: "ev \<in> set (callback w b i reason) \<Longrightarrow> genuine w' b' ev"
  by (auto simp: genuine_def dest: callback_events handled_events)

lemma genuine_handled: "ev \<in> set (handled c err) \<Longrightarrow> genuine w' b' ev"
  by (auto simp: genuine_def dest: handled_events)

lemma origins_init: "origins w b init"
  by (simp add: origins_def init_def)

lemma origins_step:
  assumes "origins w b s"
  shows "origins w b (step w b s th)"
proof (cases rule: step_cases [where w = w and b = b and s = s and th = th])
  case stutter
  with assms show ?thesis by simp
next
  case (shutdown k reason c)
  with assms show ?thesis
    by (auto simp: origins_def genuine_callback genuine_handled)
next
  case started
  with assms show ?thesis
    by (auto simp: origins_def genuine_info)
next
  case (start_log t j)
  with assms show ?thesis
    by (auto simp: origins_def genuine_info)
next
  case (wait_return t c err)
  with assms show ?thesis
    by (auto simp: origins_def finish_fields genuine_def)
next
  case (start_return t j err)
  with assms show ?thesis
    by (auto simp: origins_def finish_fields genuine_def)
next
  case (onRun_nil t)
  with assms show ?thesis
    by (auto simp: origins_def finish_fields genuine_def)
next
  case (onRun_return t fn err)
  with assms show ?thesis
    by (auto simp: origins_def finish_fields genuine_def)
qed (use assms in \<open>auto simp: origins_def go_fields genuine_def\<close>)

lemma errors_init: "errors init"
  by (simp add: errors_def init_def)

lemma reachable_trace:
  "errors (bootstrap_Run w b sched) \<and> signals (bootstrap_Run w b sched)
   \<and> registrations (bootstrap_Run w b sched) \<and> gate b (bootstrap_Run w b sched)
   \<and> barrier_passed b (bootstrap_Run w b sched) \<and> hook_calls b (bootstrap_Run w b sched)
   \<and> origins w b (bootstrap_Run w b sched)"
proof (induction sched rule: rev_induct)
  case Nil
  show ?case
    by (simp add: Run_Nil errors_init signals_init registrations_init gate_init
          barrier_passed_init hook_calls_init origins_init)
next
  case (snoc th sched)
  with reachable [of b w sched] show ?case
    by (simp add: Run_snoc errors_step signals_step registrations_step gate_step
          barrier_passed_step hook_calls_step origins_step)
qed

lemma started_log_init: "started_log init"
  by (simp add: started_log_def init_def)

lemma started_log_step:
  assumes "started_log s"
  shows "started_log (step w b s th)"
  unfolding started_log_def
proof (intro allI)
  fix u
  from assms have mem: "(Go u \<in> set (trace s)) = (tasks s u \<noteq> None)"
    by (simp add: started_log_def)
  show "(Go u \<in> set (trace (step w b s th))) = (tasks (step w b s th) u \<noteq> None)"
  proof (cases rule: step_cases [where w = w and b = b and s = s and th = th])
    case stutter
    with mem show ?thesis by simp
  next
    case (shutdown k reason c)
    with mem show ?thesis by (auto dest: callback_events handled_events)
  next
    case started
    with mem show ?thesis by (auto dest: info_events)
  next
    case (start_log t j)
    with mem show ?thesis by (auto dest: info_events)
  qed (use mem in \<open>auto simp: go_fields finish_fields\<close>)
qed

lemma all_finished:
  assumes "counters s" and "eg_wg s = 0" and "tasks s t = Some p"
  shows "p = Finished"
proof -
  from assms(1,2) have "live s = {}"
    by (auto simp: counters_def)
  with assms(3) show ?thesis
    by (auto simp: live_def)
qed

lemma outcome_init: "outcome b init"
  by (simp add: outcome_def init_def)

lemma outcome_step:
  assumes "control b s" and "counters s" and "outcome b s"
  shows "outcome b (step w b s th)"
proof (cases "returned (main s)")
  case True
  then obtain r where r: "main s = Returned r"
    by (cases "main s") simp_all
  have "tasks s Wait_task = None \<Longrightarrow> tasks s t = None" for t
    using assms(1) by (auto simp: control_def pristine_def split: if_splits)
  with assms(3) r have fin: "\<And>t p. tasks s t = Some p \<Longrightarrow> p = Finished"
    by (fastforce simp: outcome_def split: if_splits)
  have "main (step w b s th) = main s \<and> panicked (step w b s th) = panicked s
        \<and> tasks (step w b s th) = tasks s \<and> eg_err (step w b s th) = eg_err s"
    by (cases rule: step_cases [where w = w and b = b and s = s and th = th])
       (use r fin in \<open>auto\<close>)
  then have eqs: "main (step w b s th) = main s" "panicked (step w b s th) = panicked s"
    "tasks (step w b s th) = tasks s" "eg_err (step w b s th) = eg_err s"
    by simp_all
  show ?thesis
    using assms(3) unfolding outcome_def eqs .
next
  case False
  show ?thesis
  proof (cases rule: step_cases [where w = w and b = b and s = s and th = th])
    case stutter
    with assms(3) show ?thesis by simp
  next
    case abort
    with control_before_group(1) [OF assms(1), of Wait_task] show ?thesis
      by (simp add: outcome_def)
  next
    case (hook_fails hook e)
    with control_before_group(1) [OF assms(1), of Wait_task] show ?thesis
      by (auto simp: outcome_def)
  next
    case return
    with control_in_group(1) [OF assms(1)] all_finished [OF assms(2)] show ?thesis
      by (auto simp: outcome_def)
  qed (use False in \<open>auto simp: outcome_def go_fields finish_fields\<close>)
qed

lemma reachable_outcome:
  "started_log (bootstrap_Run w b sched) \<and> outcome b (bootstrap_Run w b sched)"
proof (induction sched rule: rev_induct)
  case Nil
  show ?case
    by (simp add: Run_Nil started_log_init outcome_init)
next
  case (snoc th sched)
  with reachable [of b w sched] show ?case
    by (simp add: Run_snoc started_log_step outcome_step)
qed

lemma returned_log_init: "returned_log init"
  by (simp add: returned_log_def init_def)

lemma returned_log_step:
  assumes "returned_log s"
  shows "returned_log (step w b s th)"
  unfolding returned_log_def
proof (intro allI impI)
  fix u err
  assume ev: "Task_returned u err \<in> set (trace (step w b s th))"
  from assms have mem: "Task_returned u err \<in> set (trace s) \<Longrightarrow> tasks s u \<noteq> None"
    unfolding returned_log_def by blast
  show "tasks (step w b s th) u \<noteq> None"
  proof (cases rule: step_cases [where w = w and b = b and s = s and th = th])
    case stutter
    with mem ev show ?thesis by simp
  next
    case (shutdown k reason c)
    with mem ev show ?thesis by (auto dest: callback_events handled_events)
  next
    case started
    with mem ev show ?thesis by (auto dest: info_events)
  next
    case (start_log t j)
    with mem ev show ?thesis by (auto dest: info_events)
  qed (use mem ev in \<open>auto simp: go_fields finish_fields\<close>)
qed

lemma reachable_returned_log: "returned_log (bootstrap_Run w b sched)"
proof (induction sched rule: rev_induct)
  case Nil
  show ?case by (simp add: Run_Nil returned_log_init)
next
  case (snoc th sched)
  then show ?case by (simp add: Run_snoc returned_log_step)
qed

lemma first_failure_member:
  "first_failure tr = Some (t, e) \<Longrightarrow> Task_returned t (Some e) \<in> set tr"
  by (induction tr rule: first_failure.induct) auto

lemma Is_WithMessage_Canceled: "Is (WithMessage e msg) Canceled = Is e Canceled"
  by simp

text \<open>What is known once \<open>Run\<close> has returned after a task of the group returned an error.\<close>

lemma returned_after_failure:
  assumes "main (bootstrap_Run w b sched) = Returned res"
    and "first_failure (trace (bootstrap_Run w b sched)) = Some (t, x)"
  shows "genuine w b (Task_returned t (Some x))"
    and "res = (if Is x Canceled then None else Some (WithMessage x ''bootstrap run err''))"
    and "eg_err (bootstrap_Run w b sched) = Some x"
    and "eg_cancelled (bootstrap_Run w b sched)"
    and "\<not> panicked (bootstrap_Run w b sched)"
    and "callbacks (bootstrap_Run w b sched) = [0..<length (runners b)]"
    and "tasks (bootstrap_Run w b sched) OnRun_task = Some Finished"
proof -
  define s where "s = bootstrap_Run w b sched"
  note inv = reachable [of b w sched, folded s_def] reachable_trace [of w b sched, folded s_def]
    reachable_outcome [of w b sched, folded s_def] reachable_returned_log [of w b sched, folded s_def]
  from assms have ret: "main s = Returned res" and ff: "first_failure (trace s) = Some (t, x)"
    by (simp_all add: s_def)
  from ff have ev: "Task_returned t (Some x) \<in> set (trace s)"
    by (rule first_failure_member)
  with inv show "genuine w b (Task_returned t (Some x))"
    by (simp add: origins_def)
  from ev inv have "tasks s t \<noteq> None"
    by (auto simp: returned_log_def)
  with inv have wt: "tasks s Wait_task \<noteq> None"
    by (auto simp: control_def pristine_def split: if_splits)
  with inv ret have out: "res = result (eg_err s)" "\<not> panicked s"
    and fin: "\<And>t p. tasks s t = Some p \<Longrightarrow> p = Finished"
    by (auto simp: outcome_def)
  from inv ff have err: "eg_err s = Some x" "eg_cancelled s"
    by (simp_all add: errors_def)
  with out show "res = (if Is x Canceled then None else Some (WithMessage x ''bootstrap run err''))"
    by (simp add: result_def)
  from err out show "eg_err (bootstrap_Run w b sched) = Some x"
    "eg_cancelled (bootstrap_Run w b sched)" "\<not> panicked (bootstrap_Run w b sched)"
    by (simp_all add: s_def)
  from inv wt ret show "callbacks (bootstrap_Run w b sched) = [0..<length (runners b)]"
    by (auto simp: control_def s_def [symmetric])
  from inv wt ret have "tasks s OnRun_task \<noteq> None"
    by (auto simp: control_def)
  with fin show "tasks (bootstrap_Run w b sched) OnRun_task = Some Finished"
    by (auto simp: s_def [symmetric])
qed

lemma callback_calls_Stop: "Stop_called i \<in> set (callback w b i reason)"
  by (simp add: callback_def Let_def)

lemma returned_late:
  assumes "main (bootstrap_Run w b sched) = Returned r"
    and "Go Wait_task \<in> set (trace (bootstrap_Run w b sched))"
  shows "r = result (map_option snd (first_failure (trace (bootstrap_Run w b sched))))"
proof -
  define s where "s = bootstrap_Run w b sched"
  note inv = reachable_trace [of w b sched, folded s_def]
    reachable_outcome [of w b sched, folded s_def]
  from assms(2) inv have "tasks s Wait_task \<noteq> None"
    by (simp add: started_log_def s_def [symmetric])
  with assms(1) inv have "r = result (eg_err s)"
    by (auto simp: outcome_def s_def [symmetric])
  with inv show ?thesis
    by (simp add: errors_def s_def [symmetric])
qed

lemma clean_failure:
  assumes "clean w b" and "genuine w b (Task_returned t (Some x))"
  shows "Is x Canceled"
proof (cases t)
  case Wait_task
  with assms show ?thesis
    by (auto simp: clean_def genuine_def)
next
  case (Start_task i)
  with assms(2) obtain d r where r: "i < length (runners b)" "Run (runners b ! i) d = Some r"
    "Some x = wrap r (''starting '' @ Name (runners b ! i) @ '' failed'')"
    by (auto simp: genuine_def)
  then obtain e where "r = Some e" "x = WithMessage e (''starting '' @ Name (runners b ! i) @ '' failed'')"
    by (cases r) (simp_all add: wrap_def)
  with r assms(1) show ?thesis
    by (auto simp: clean_def)
next
  case OnRun_task
  show ?thesis
  proof (cases "onRun b")
    case None
    with OnRun_task assms(2) show ?thesis
      by (simp add: genuine_def)
  next
    case (Some fn)
    with OnRun_task assms(2) obtain d r where r: "fn d = Some r" "Some x = wrap r ''onRun err''"
      by (auto simp: genuine_def)
    then obtain e where "r = Some e" "x = WithMessage e ''onRun err''"
      by (cases r) (simp_all add: wrap_def)
    with r Some assms(1) show ?thesis
      by (auto simp: clean_def)
  qed
qed

lemma clean_returns_nil:
  assumes "clean w b" and "main (bootstrap_Run w b sched) = Returned r"
    and "Go Wait_task \<in> set (trace (bootstrap_Run w b sched))"
  shows "r = None"
proof (cases "first_failure (trace (bootstrap_Run w b sched))")
  case None
  with returned_late [OF assms(2,3)] show ?thesis
    by (simp add: result_def)
next
  case (Some tx)
  then obtain t x where ff: "first_failure (trace (bootstrap_Run w b sched)) = Some (t, x)"
    by (cases tx) simp
  from returned_after_failure(1) [OF assms(2) ff] assms(1) have "Is x Canceled"
    by (rule clean_failure [rotated])
  with returned_after_failure(2) [OF assms(2) ff] show ?thesis
    by simp
qed

section \<open>Run without runners\<close>

lemma idle_step:
  assumes "tasks s = (\<lambda>t. None)" "callbacks s = []" "th \<noteq> Main"
  shows "main (step w b s th) = main s \<and> trace (step w b s th) = trace s
       \<and> tasks (step w b s th) = tasks s \<and> callbacks (step w b s th) = callbacks s
       \<and> panicked (step w b s th) = panicked s"
  using assms by (cases th) (simp_all add: step_def task_step_def shutdown_step_def split: option.splits)

lemma no_runners_step:
  assumes "runners b = []"
    and "tasks s = (\<lambda>t. None)" "callbacks s = []" "\<not> panicked s"
    and "main s = Entry \<and> trace s = []
         \<or> main s = Returned None \<and> trace s = [Log ErrorLevel ''no runners, abort.'']"
  shows "tasks (step w b s th) = (\<lambda>t. None) \<and> callbacks (step w b s th) = []
       \<and> \<not> panicked (step w b s th)
       \<and> (if th = Main \<or> main s \<noteq> Entry
           then main (step w b s th) = Returned None
              \<and> trace (step w b s th) = [Log ErrorLevel ''no runners, abort.'']
           else main (step w b s th) = Entry \<and> trace (step w b s th) = [])"
proof (cases th)
  case Main
  from assms(5) show ?thesis
  proof
    assume "main s = Entry \<and> trace s = []"
    with assms(1-4) Main show ?thesis
      by (simp add: step_def main_step_def)
  next
    assume "main s = Returned None \<and> trace s = [Log ErrorLevel ''no runners, abort.'']"
    with assms(1-4) Main show ?thesis
      by (simp add: step_def main_step_def)
  qed
next
  case (Task t)
  with assms show ?thesis
    by (auto simp: step_def task_step_def)
next
  case (Shutdown k reason)
  with assms show ?thesis
    by (auto simp: step_def shutdown_step_def split: option.splits)
next
  case Cancel
  with assms show ?thesis
    by (auto simp: step_def)
qed

lemma no_runners_state:
  assumes "runners b = []"
  shows "tasks (bootstrap_Run w b sched) = (\<lambda>t. None)
       \<and> callbacks (bootstrap_Run w b sched) = []
       \<and> \<not> panicked (bootstrap_Run w b sched)
       \<and> (if Main \<in> set sched
           then main (bootstrap_Run w b sched) = Returned None
              \<and> trace (bootstrap_Run w b sched) = [Log ErrorLevel ''no runners, abort.'']
           else main (bootstrap_Run w b sched) = Entry \<and> trace (bootstrap_Run w b sched) = [])"
proof (induction sched rule: rev_induct)
  case Nil
  show ?case by (simp add: Run_Nil init_def)
next
  case (snoc th sched)
  define s where "s = bootstrap_Run w b sched"
  note IH = snoc [folded s_def]
  have "main s = Entry \<and> trace s = []
         \<or> main s = Returned None \<and> trace s = [Log ErrorLevel ''no runners, abort.'']"
    using IH by (simp split: if_splits)
  with IH have "tasks (step w b s th) = (\<lambda>t. None) \<and> callbacks (step w b s th) = []
       \<and> \<not> panicked (step w b s th)
       \<and> (if th = Main \<or> main s \<noteq> Entry
           then main (step w b s th) = Returned None
              \<and> trace (step w b s th) = [Log ErrorLevel ''no runners, abort.'']
           else main (step w b s th) = Entry \<and> trace (step w b s th) = [])"
    by (intro no_runners_step [OF assms]) simp_all
  moreover have "(th = Main \<or> main s \<noteq> Entry) = (Main \<in> set (sched @ [th]))"
    using IH by (auto split: if_splits)
  ultimately show ?case
    unfolding Run_snoc s_def [symmetric] by simp
qed

text \<open>
  C8. With no runners, \<open>Run\<close> has returned nil as soon as its goroutine has taken its first
  step, under every schedule, and what it has done is one call of the logger, at the error
  level, with the message "no runners, abort." (the message of the source ends with a full
  stop).
\<close>

theorem Run_no_runners:
  assumes "runners b = []" and "Main \<in> set sched"
  shows "main (bootstrap_Run w b sched) = Returned None
       \<and> trace (bootstrap_Run w b sched) = [Log ErrorLevel ''no runners, abort.'']"
  using no_runners_state [OF assms(1), of w sched] assms(2) by simp

theorem Run_no_runners_witness:
  "runners (New []) = [] \<and> Main \<in> set [Cancel, Main, Task Wait_task]
   \<and> main (bootstrap_Run test_world (New []) [Cancel, Main, Task Wait_task]) = Returned None
   \<and> trace (bootstrap_Run test_world (New []) [Cancel, Main, Task Wait_task])
       = [Log ErrorLevel ''no runners, abort.'']"
proof -
  have h1: "runners (New []) = []"
    by (simp add: New_def)
  have h2: "Main \<in> set [Cancel, Main, Task Wait_task]"
    by simp
  from Run_no_runners [OF h1 h2, of test_world] h1 h2 show ?thesis
    by simp
qed

text \<open>
  C10. With no runners and a pre-start hook set, under every schedule the hook is never
  called, \<open>Wait\<close> of the controller is never called, no shutdown callback is registered and no
  task is started: the trace holds nothing but the error log line, and \<open>Run\<close> has returned nil
  after the first step of its goroutine.
\<close>

theorem Run_no_runners_no_effects:
  assumes "runners b = []" and "beforeRun b = Some hook"
  shows "BeforeRun_called \<notin> set (trace (bootstrap_Run w b sched))
       \<and> Wait_called \<notin> set (trace (bootstrap_Run w b sched))
       \<and> (\<forall>i. AddShutdownCallback i \<notin> set (trace (bootstrap_Run w b sched)))
       \<and> callbacks (bootstrap_Run w b sched) = []
       \<and> (\<forall>t. tasks (bootstrap_Run w b sched) t = None)
       \<and> set (trace (bootstrap_Run w b sched)) \<subseteq> {Log ErrorLevel ''no runners, abort.''}
       \<and> (Main \<in> set sched \<longrightarrow> main (bootstrap_Run w b sched) = Returned None)"
  using no_runners_state [OF assms(1), of w sched] by (auto split: if_splits)

theorem Run_no_runners_no_effects_witness:
  "runners (New [WithBeforeRun (Some hook_fails)]) = []
   \<and> beforeRun (New [WithBeforeRun (Some hook_fails)]) = Some hook_fails
   \<and> trace (bootstrap_Run test_world (New [WithBeforeRun (Some hook_fails)])
              [Main, Shutdown 0 ''signal'', Main, Task Wait_task])
       = [Log ErrorLevel ''no runners, abort.'']
   \<and> main (bootstrap_Run test_world (New [WithBeforeRun (Some hook_fails)])
              [Main, Shutdown 0 ''signal'', Main, Task Wait_task]) = Returned None
   \<and> callbacks (bootstrap_Run test_world (New [WithBeforeRun (Some hook_fails)])
              [Main, Shutdown 0 ''signal'', Main, Task Wait_task]) = []"
proof -
  have h1: "runners (New [WithBeforeRun (Some hook_fails)]) = []"
    by (simp add: New_def WithBeforeRun_def)
  have h2: "beforeRun (New [WithBeforeRun (Some hook_fails)]) = Some hook_fails"
    by (simp add: New_def WithBeforeRun_def)
  have "trace (bootstrap_Run test_world (New [WithBeforeRun (Some hook_fails)])
              [Main, Shutdown 0 ''signal'', Main, Task Wait_task])
       = [Log ErrorLevel ''no runners, abort.'']"
    by (simp add: bootstrap_Run_def New_def WithBeforeRun_def init_def step_def main_step_def
          task_step_def shutdown_step_def)
  moreover have "Main \<in> set [Main, Shutdown 0 ''signal'', Main, Task Wait_task]"
    by simp
  moreover from Run_no_runners_no_effects [OF h1 h2, of test_world
      "[Main, Shutdown 0 ''signal'', Main, Task Wait_task]"]
  have "callbacks (bootstrap_Run test_world (New [WithBeforeRun (Some hook_fails)])
              [Main, Shutdown 0 ''signal'', Main, Task Wait_task]) = []"
    and "Main \<in> set [Main, Shutdown 0 ''signal'', Main, Task Wait_task] \<longrightarrow>
         main (bootstrap_Run test_world (New [WithBeforeRun (Some hook_fails)])
              [Main, Shutdown 0 ''signal'', Main, Task Wait_task]) = Returned None"
    by blast+
  ultimately show ?thesis
    using h1 h2 by blast
qed

section \<open>Run with a failing pre-start hook\<close>

text \<open>
  The pre-start hook is any call that never returns nil: it may block, for ever or until the
  context is done, and the error it returns may depend on the context. \<open>Run\<close> does not leave the
  hook before the hook returns.
\<close>

lemma gated_main_step:
  assumes "runners b \<noteq> []" and "beforeRun b = Some hook" and "\<forall>d. hook d \<noteq> Some None"
    and "gated hook s"
  shows "gated hook (step w b s Main)"
    and "\<forall>d. hook d \<noteq> None \<Longrightarrow> stage (main (step w b s Main)) = min 3 (Suc (stage (main s)))"
proof -
  from assms(4) have q: "tasks s = (\<lambda>t. None)" "callbacks s = []" "\<not> panicked s"
    by (simp_all add: gated_def)
  from assms(4) consider "main s = Entry" "trace s = []" | "main s = Before" "trace s = []"
    | "main s = Before_wait" "trace s = [BeforeRun_called]"
    | d e where "hook d = Some (Some e)" "main s = Returned (Some e)"
        "trace s = [BeforeRun_called, BeforeRun_returned (Some e)]"
    unfolding gated_def by blast
  then have "gated hook (step w b s Main)
    \<and> ((\<forall>d. hook d \<noteq> None) \<longrightarrow> stage (main (step w b s Main)) = min 3 (Suc (stage (main s))))"
  proof cases
    case 1
    with q assms(1,2) show ?thesis
      by (simp add: gated_def step_def main_step_def)
  next
    case 2
    with q assms(1,2) show ?thesis
      by (simp add: gated_def step_def main_step_def)
  next
    case 3
    show ?thesis
    proof (cases "hook (ctx_done s)")
      case None
      with 3 q assms(1,2) show ?thesis
        by (auto simp: gated_def step_def main_step_def)
    next
      case (Some err)
      with assms(3) obtain e where "hook (ctx_done s) = Some (Some e)"
        by (cases err) auto
      with 3 q assms(1,2) show ?thesis
        by (auto simp: gated_def step_def main_step_def)
    qed
  next
    case 4
    with q assms(1,2) show ?thesis
      by (auto simp: gated_def step_def main_step_def)
  qed
  then show "gated hook (step w b s Main)"
    and "\<forall>d. hook d \<noteq> None \<Longrightarrow> stage (main (step w b s Main)) = min 3 (Suc (stage (main s)))"
    by simp_all
qed

lemma gated_other_step:
  assumes "gated hook s" and "th \<noteq> Main"
  shows "gated hook (step w b s th)" and "main (step w b s th) = main s"
proof -
  from assms(1) have "tasks s = (\<lambda>t. None)" "callbacks s = []"
    by (simp_all add: gated_def)
  from idle_step [OF this assms(2), of w b] assms(1)
  show "gated hook (step w b s th)" and "main (step w b s th) = main s"
    by (simp_all add: gated_def)
qed

lemma gated_state:
  assumes "runners b \<noteq> []" and "beforeRun b = Some hook" and "\<forall>d. hook d \<noteq> Some None"
  shows "gated hook (bootstrap_Run w b sched)
       \<and> ((\<forall>d. hook d \<noteq> None) \<longrightarrow>
            stage (main (bootstrap_Run w b sched)) = min 3 (count_list sched Main))"
proof (induction sched rule: rev_induct)
  case Nil
  show ?case by (simp add: Run_Nil init_def gated_def)
next
  case (snoc th sched)
  define s where "s = bootstrap_Run w b sched"
  from snoc have IH: "gated hook s"
    "(\<forall>d. hook d \<noteq> None) \<longrightarrow> stage (main s) = min 3 (count_list sched Main)"
    by (simp_all add: s_def)
  show ?case
  proof (cases "th = Main")
    case True
    with gated_main_step [OF assms IH(1), of w] IH(2) show ?thesis
      unfolding Run_snoc s_def [symmetric] by auto
  next
    case False
    with gated_other_step [OF IH(1) False, of w b] IH(2) show ?thesis
      unfolding Run_snoc s_def [symmetric] by simp
  qed
qed

text \<open>
  C2. With at least one runner and a pre-start hook that never returns nil, under every schedule:
  when \<open>Run\<close> has returned it has returned, unwrapped, an error the hook returns; when the hook
  never blocks, \<open>Run\<close> has returned such an error once its goroutine has taken three steps; when
  \<open>Run\<close> is waiting in the hook and the hook returns the error \<open>e\<close>, the next step of \<open>Run\<close> returns
  \<open>e\<close>; no runner's \<open>Run\<close> or \<open>Stop\<close> is ever called, no shutdown callback is ever registered with
  the controller, and no task is started.
\<close>

theorem Run_beforeRun_fails:
  assumes "runners b \<noteq> []" and "beforeRun b = Some hook" and "\<forall>d. hook d \<noteq> Some None"
  shows "(\<forall>r. main (bootstrap_Run w b sched) = Returned r \<longrightarrow>
            (\<exists>d e. hook d = Some (Some e) \<and> r = Some e))
       \<and> ((\<forall>d. hook d \<noteq> None) \<and> 3 \<le> count_list sched Main \<longrightarrow>
            (\<exists>d e. hook d = Some (Some e) \<and> main (bootstrap_Run w b sched) = Returned (Some e)))
       \<and> (main (bootstrap_Run w b sched) = Before_wait
            \<and> hook (ctx_done (bootstrap_Run w b sched)) = Some (Some e) \<longrightarrow>
            main (bootstrap_Run w b (sched @ [Main])) = Returned (Some e))
       \<and> (\<forall>i. Run_called i \<notin> set (trace (bootstrap_Run w b sched))
             \<and> Stop_called i \<notin> set (trace (bootstrap_Run w b sched))
             \<and> AddShutdownCallback i \<notin> set (trace (bootstrap_Run w b sched)))
       \<and> callbacks (bootstrap_Run w b sched) = []
       \<and> (\<forall>t. tasks (bootstrap_Run w b sched) t = None)"
proof -
  define s where "s = bootstrap_Run w b sched"
  from gated_state [OF assms, of w sched]
  have g: "gated hook s"
    and st: "(\<forall>d. hook d \<noteq> None) \<longrightarrow> stage (main s) = min 3 (count_list sched Main)"
    by (simp_all add: s_def)
  from g have q: "tasks s = (\<lambda>t. None)" "callbacks s = []" "\<not> panicked s"
    by (simp_all add: gated_def)
  from g consider "main s = Entry" "trace s = []" | "main s = Before" "trace s = []"
    | "main s = Before_wait" "trace s = [BeforeRun_called]"
    | d e' where "hook d = Some (Some e')" "main s = Returned (Some e')"
        "trace s = [BeforeRun_called, BeforeRun_returned (Some e')]"
    unfolding gated_def by blast
  then have a: "(\<forall>r. main s = Returned r \<longrightarrow> (\<exists>d e. hook d = Some (Some e) \<and> r = Some e))
       \<and> (stage (main s) = 3 \<longrightarrow> (\<exists>d e. hook d = Some (Some e) \<and> main s = Returned (Some e)))
       \<and> (\<forall>i. Run_called i \<notin> set (trace s) \<and> Stop_called i \<notin> set (trace s)
             \<and> AddShutdownCallback i \<notin> set (trace s))"
    by cases auto
  have c: "main s = Before_wait \<and> hook (ctx_done s) = Some (Some e) \<longrightarrow>
           main (step w b s Main) = Returned (Some e)"
    using q assms(2) by (simp add: step_def main_step_def)
  from st have "(\<forall>d. hook d \<noteq> None) \<and> 3 \<le> count_list sched Main \<longrightarrow> stage (main s) = 3"
    by auto
  with a have b: "(\<forall>d. hook d \<noteq> None) \<and> 3 \<le> count_list sched Main \<longrightarrow>
            (\<exists>d e. hook d = Some (Some e) \<and> main s = Returned (Some e))"
    by blast
  from q(1) have "\<forall>t. tasks s t = None"
    by simp
  with a b c q(2) show ?thesis
    unfolding Run_snoc s_def [symmetric] by blast
qed

theorem Run_beforeRun_fails_witness:
  "runners (New [WithRunners [testRunner], WithBeforeRun (Some hook_fails)]) \<noteq> []
   \<and> beforeRun (New [WithRunners [testRunner], WithBeforeRun (Some hook_fails)]) = Some hook_fails
   \<and> (\<forall>d. hook_fails d \<noteq> Some None) \<and> (\<forall>d. hook_fails d \<noteq> None)
   \<and> main (bootstrap_Run test_world
              (New [WithRunners [testRunner], WithBeforeRun (Some hook_fails)])
              [Main, Main, Cancel, Main, Shutdown 0 ''signal''])
       = Returned (Some (Failure ''test''))
   \<and> callbacks (bootstrap_Run test_world
              (New [WithRunners [testRunner], WithBeforeRun (Some hook_fails)])
              [Main, Main, Cancel, Main, Shutdown 0 ''signal'']) = []
   \<and> runners (New [WithRunners [testRunner], WithBeforeRun (Some ctx_err)]) \<noteq> []
   \<and> beforeRun (New [WithRunners [testRunner], WithBeforeRun (Some ctx_err)]) = Some ctx_err
   \<and> (\<forall>d. ctx_err d \<noteq> Some None)
   \<and> main (bootstrap_Run test_world
              (New [WithRunners [testRunner], WithBeforeRun (Some ctx_err)])
              [Main, Main, Main, Main, Cancel]) = Before_wait
   \<and> ctx_err (ctx_done (bootstrap_Run test_world
              (New [WithRunners [testRunner], WithBeforeRun (Some ctx_err)])
              [Main, Main, Main, Main, Cancel])) = Some (Some Canceled)
   \<and> main (bootstrap_Run test_world
              (New [WithRunners [testRunner], WithBeforeRun (Some ctx_err)])
              ([Main, Main, Main, Main, Cancel] @ [Main])) = Returned (Some Canceled)"
proof -
  let ?b = "New [WithRunners [testRunner], WithBeforeRun (Some hook_fails)]"
  let ?c = "New [WithRunners [testRunner], WithBeforeRun (Some ctx_err)]"
  let ?sched = "[Main, Main, Cancel, Main, Shutdown 0 ''signal'']"
  let ?blocked = "[Main, Main, Main, Main, Cancel]"
  have h1: "runners ?b \<noteq> []"
    by (simp add: New_def WithRunners_def WithBeforeRun_def)
  have h2: "beforeRun ?b = Some hook_fails"
    by (simp add: New_def WithRunners_def WithBeforeRun_def)
  have h3: "\<forall>d. hook_fails d \<noteq> Some None"
    by (simp add: hook_fails_def)
  have h4: "\<forall>d. hook_fails d \<noteq> None"
    by (simp add: hook_fails_def)
  have h5: "3 \<le> count_list ?sched Main"
    by simp
  have h6: "\<And>d e. hook_fails d = Some (Some e) \<Longrightarrow> e = Failure ''test''"
    by (simp add: hook_fails_def)
  from Run_beforeRun_fails [OF h1 h2 h3, of test_world ?sched] h4 h5
  have "\<exists>d e. hook_fails d = Some (Some e) \<and> main (bootstrap_Run test_world ?b ?sched) = Returned (Some e)"
    by blast
  with h6 have r1: "main (bootstrap_Run test_world ?b ?sched) = Returned (Some (Failure ''test''))"
    by blast
  from Run_beforeRun_fails [OF h1 h2 h3, of test_world ?sched]
  have r2: "callbacks (bootstrap_Run test_world ?b ?sched) = []"
    by blast
  have k1: "runners ?c \<noteq> []"
    by (simp add: New_def WithRunners_def WithBeforeRun_def)
  have k2: "beforeRun ?c = Some ctx_err"
    by (simp add: New_def WithRunners_def WithBeforeRun_def)
  have k3: "\<forall>d. ctx_err d \<noteq> Some None"
    by (simp add: ctx_err_def)
  have k4: "main (bootstrap_Run test_world ?c ?blocked) = Before_wait"
    by (simp add: bootstrap_Run_def New_def WithRunners_def WithBeforeRun_def init_def step_def
          main_step_def task_step_def shutdown_step_def ctx_err_def testRunner_def)
  have k5: "ctx_err (ctx_done (bootstrap_Run test_world ?c ?blocked)) = Some (Some Canceled)"
    by (simp add: bootstrap_Run_def New_def WithRunners_def WithBeforeRun_def init_def step_def
          main_step_def task_step_def shutdown_step_def ctx_err_def testRunner_def)
  from Run_beforeRun_fails [OF k1 k2 k3, of test_world ?blocked Canceled] k4 k5
  have r3: "main (bootstrap_Run test_world ?c (?blocked @ [Main])) = Returned (Some Canceled)"
    by blast
  from h1 h2 h3 h4 r1 r2 k1 k2 k3 k4 k5 r3 show ?thesis
    by blast
qed

section \<open>The order of the steps of Run\<close>

lemma count_once:
  assumes "count_list (pre @ ev # post) x \<le> 1" and "x \<in> set pre"
  shows "count_list pre x = 1"
proof -
  have "count_list pre x \<noteq> 0"
  proof
    assume "count_list pre x = 0"
    with count_list_0_iff [of pre x] have "x \<notin> set pre"
      by blast
    with assms(2) show False by simp
  qed
  with assms(1) show ?thesis
    by simp
qed

text \<open>
  C3. Under every schedule, whatever the trace of \<open>Run\<close> holds before an event: before the
  start task of a runner is started, the shutdown callback of that runner has been registered
  with the controller and the pre-start hook, if one is set, has returned nil; before a start
  task calls \<open>Run\<close> of its runner it has called \<open>waitStart.Done\<close> exactly once; before the
  post-start task is started every runner's start task has called \<open>waitStart.Done\<close> exactly
  once; and no start task ever calls it twice.
\<close>

theorem Run_order:
  assumes "trace (bootstrap_Run w b sched) = pre @ ev # post"
  shows "(ev = Go (Start_task i) \<longrightarrow>
            AddShutdownCallback i \<in> set pre
            \<and> (beforeRun b \<noteq> None \<longrightarrow> BeforeRun_returned None \<in> set pre))
       \<and> (ev = Run_called i \<longrightarrow> count_list pre (WaitStart_Done i) = 1)
       \<and> (ev = Go OnRun_task \<longrightarrow>
            (\<forall>j<length (runners b). count_list pre (WaitStart_Done j) = 1))
       \<and> count_list (pre @ ev # post) (WaitStart_Done i) \<le> 1"
proof -
  define s where "s = bootstrap_Run w b sched"
  from reachable_trace [of w b sched]
  have inv: "signals s" "registrations s" "gate b s" "barrier_passed b s"
    by (simp_all add: s_def)
  from assms have tr: "trace s = pre @ ev # post"
    by (simp add: s_def)
  have once: "count_list (pre @ ev # post) (WaitStart_Done j) \<le> 1" for j
    using inv(1) tr by (simp add: signals_def)
  have "AddShutdownCallback i \<in> set pre" if "ev = Go (Start_task i)"
    using inv(2) tr that by (simp add: registrations_def precedes_def)
  moreover have "BeforeRun_returned None \<in> set pre" if "ev = Go (Start_task i)" "beforeRun b \<noteq> None"
    using inv(3) tr that by (simp add: gate_def precedes_def)
  moreover have "count_list pre (WaitStart_Done i) = 1" if "ev = Run_called i"
  proof -
    from inv(1) tr that have "WaitStart_Done i \<in> set pre"
      by (simp add: signals_def precedes_def)
    with once show ?thesis
      by (rule count_once)
  qed
  moreover have "count_list pre (WaitStart_Done j) = 1" if "ev = Go OnRun_task" "j < length (runners b)" for j
  proof -
    from inv(4) tr that have "WaitStart_Done j \<in> set pre"
      by (simp add: barrier_passed_def precedes_def)
    with once show ?thesis
      by (rule count_once)
  qed
  ultimately show ?thesis
    using once [of i] by blast
qed

lemma interleaved_trace:
  "trace (bootstrap_Run test_world two_runners interleaved) =
     [BeforeRun_called, BeforeRun_returned None, Go Wait_task, AddShutdownCallback 0,
      Go (Start_task 0), Log InfoLevel ''Starting runner: testRunner'', AddShutdownCallback 1,
      Go (Start_task 1), WaitStart_Done 0, Run_called 0,
      Log InfoLevel ''Starting runner: otherRunner'', WaitStart_Done 1,
      Log InfoLevel ''bootstrap started.''] @ Go OnRun_task # [Run_called 1]"
  by (simp add: bootstrap_Run_def interleaved_def two_runners_def New_def WithRunners_def
        WithBeforeRun_def WithOnRun_def testRunner_def otherRunner_def hook_ok_def test_world_def
        init_def step_def main_step_def task_step_def go_def info_def)

theorem Run_order_witness:
  "trace (bootstrap_Run test_world two_runners interleaved) =
     [BeforeRun_called, BeforeRun_returned None, Go Wait_task, AddShutdownCallback 0,
      Go (Start_task 0), Log InfoLevel ''Starting runner: testRunner'', AddShutdownCallback 1,
      Go (Start_task 1), WaitStart_Done 0, Run_called 0,
      Log InfoLevel ''Starting runner: otherRunner'', WaitStart_Done 1,
      Log InfoLevel ''bootstrap started.''] @ Go OnRun_task # [Run_called 1]
   \<and> length (runners two_runners) = 2
   \<and> count_list
         [BeforeRun_called, BeforeRun_returned None, Go Wait_task, AddShutdownCallback 0,
          Go (Start_task 0), Log InfoLevel ''Starting runner: testRunner'',
          AddShutdownCallback 1, Go (Start_task 1), WaitStart_Done 0, Run_called 0,
          Log InfoLevel ''Starting runner: otherRunner'', WaitStart_Done 1,
          Log InfoLevel ''bootstrap started.'']
         (WaitStart_Done 0) = 1
   \<and> count_list
         [BeforeRun_called, BeforeRun_returned None, Go Wait_task, AddShutdownCallback 0,
          Go (Start_task 0), Log InfoLevel ''Starting runner: testRunner'',
          AddShutdownCallback 1, Go (Start_task 1), WaitStart_Done 0, Run_called 0,
          Log InfoLevel ''Starting runner: otherRunner'', WaitStart_Done 1,
          Log InfoLevel ''bootstrap started.'']
         (WaitStart_Done 1) = 1"
proof -
  have n: "length (runners two_runners) = 2"
    by (simp add: two_runners_def New_def WithRunners_def WithBeforeRun_def WithOnRun_def)
  from Run_order [OF interleaved_trace, of 0]
  have "\<forall>j<length (runners two_runners).
         count_list
           [BeforeRun_called, BeforeRun_returned None, Go Wait_task, AddShutdownCallback 0,
            Go (Start_task 0), Log InfoLevel ''Starting runner: testRunner'',
            AddShutdownCallback 1, Go (Start_task 1), WaitStart_Done 0, Run_called 0,
            Log InfoLevel ''Starting runner: otherRunner'', WaitStart_Done 1,
            Log InfoLevel ''bootstrap started.'']
           (WaitStart_Done j) = 1"
    by blast
  with n have "count_list
         [BeforeRun_called, BeforeRun_returned None, Go Wait_task, AddShutdownCallback 0,
          Go (Start_task 0), Log InfoLevel ''Starting runner: testRunner'',
          AddShutdownCallback 1, Go (Start_task 1), WaitStart_Done 0, Run_called 0,
          Log InfoLevel ''Starting runner: otherRunner'', WaitStart_Done 1,
          Log InfoLevel ''bootstrap started.'']
         (WaitStart_Done 0) = 1"
    and "count_list
         [BeforeRun_called, BeforeRun_returned None, Go Wait_task, AddShutdownCallback 0,
          Go (Start_task 0), Log InfoLevel ''Starting runner: testRunner'',
          AddShutdownCallback 1, Go (Start_task 1), WaitStart_Done 0, Run_called 0,
          Log InfoLevel ''Starting runner: otherRunner'', WaitStart_Done 1,
          Log InfoLevel ''bootstrap started.'']
         (WaitStart_Done 1) = 1"
    by (metis (no_types) zero_less_numeral one_less_numeral_iff semiring_norm(76))+
  with n show ?thesis
    using interleaved_trace by blast
qed

section \<open>Run comes to its end\<close>

text \<open>
  Nothing of the above says that \<open>Run\<close> returns. It does when its goroutines are scheduled
  fairly and what it calls keeps its contract: each call returns once its context is done.
  The argument is by a measure of the steps that are left.
\<close>

lemma shapes_init: "shapes b init"
  by (simp add: shapes_def init_def)

lemma shapes_step:
  assumes "shapes b s"
  shows "shapes b (step w b s th)"
  by (cases rule: step_cases [where w = w and b = b and s = s and th = th])
     (use assms in \<open>auto simp: shapes_def go_fields finish_fields\<close>)

lemma unconfirmed_counted:
  assumes "counters s" and "tasks s (Start_task i) = Some Logged"
  shows "waitStart s \<noteq> 0"
proof -
  from assms(2) have "i \<in> unconfirmed s"
    by (simp add: unconfirmed_def)
  with assms(1) have "0 < card (unconfirmed s)"
    by (auto simp: counters_def card_gt_0_iff)
  moreover from assms(1) have "waitStart s \<ge> card (unconfirmed s)"
    by (simp add: counters_def)
  ultimately show ?thesis
    by simp
qed

lemma no_panic_step:
  assumes "gs b \<noteq> None" and "counters s" and "\<not> panicked s"
  shows "\<not> panicked (step w b s th)"
proof (cases rule: step_cases [where w = w and b = b and s = s and th = th])
  case (panic_done t i)
  with unconfirmed_counted [OF assms(2)] show ?thesis by simp
qed (use assms in \<open>auto simp: go_fields finish_fields\<close>)

lemma no_panic:
  assumes "gs b \<noteq> None"
  shows "\<not> panicked (bootstrap_Run w b sched)"
proof (induction sched rule: rev_induct)
  case Nil
  show ?case by (simp add: Run_Nil init_def)
next
  case (snoc th sched)
  with reachable [of b w sched] assms show ?case
    by (simp add: Run_snoc no_panic_step)
qed

lemma reachable_shapes: "shapes b (bootstrap_Run w b sched)"
proof (induction sched rule: rev_induct)
  case Nil
  show ?case by (simp add: Run_Nil shapes_init)
next
  case (snoc th sched)
  then show ?case by (simp add: Run_snoc shapes_step)
qed

lemma over_step: "over s \<Longrightarrow> over (step w b s th)"
  by (cases rule: step_cases [where w = w and b = b and s = s and th = th])
     (auto simp: over_def go_fields finish_fields)

lemma Run_append:
  "bootstrap_Run w b (sched @ ext) = foldl (step w b) (bootstrap_Run w b sched) ext"
  by (simp add: bootstrap_Run_def)

lemma over_append:
  "over (bootstrap_Run w b sched) \<Longrightarrow> over (bootstrap_Run w b (sched @ ext))"
proof (induction ext rule: rev_induct)
  case Nil
  then show ?case by simp
next
  case (snoc th ext)
  then show ?case
    by (simp add: Run_snoc [of w b "sched @ ext" th, simplified] over_step)
qed

lemma called_step: "called s \<subseteq> called (step w b s th)"
  by (cases rule: step_cases [where w = w and b = b and s = s and th = th])
     (auto simp: go_def finish_def Let_def)

lemma started_step: "tasks s t \<noteq> None \<Longrightarrow> tasks (step w b s th) t \<noteq> None"
  by (cases rule: step_cases [where w = w and b = b and s = s and th = th])
     (auto simp: go_fields finish_fields)

lemma returned_step: "returned (main s) \<Longrightarrow> main (step w b s th) = main s"
  by (cases rule: step_cases [where w = w and b = b and s = s and th = th])
     (auto simp: go_fields finish_fields)

lemma start_ranks_upd:
  assumes "j < length (runners b)" and "tasks s' = (tasks s)(Start_task j \<mapsto> p)"
  shows "start_ranks b s' + rank (tasks s (Start_task j)) = start_ranks b s + rank (Some p)"
proof -
  let ?A = "{..<length (runners b)}"
  have "(\<Sum>i\<in>?A - {j}. rank (tasks s' (Start_task i))) = (\<Sum>i\<in>?A - {j}. rank (tasks s (Start_task i)))"
    by (rule sum.cong) (simp_all add: assms(2))
  moreover have "(\<Sum>i\<in>?A. rank (tasks s' (Start_task i)))
      = rank (tasks s' (Start_task j)) + (\<Sum>i\<in>?A - {j}. rank (tasks s' (Start_task i)))"
    using assms(1) by (intro sum.remove) simp_all
  moreover have "(\<Sum>i\<in>?A. rank (tasks s (Start_task i)))
      = rank (tasks s (Start_task j)) + (\<Sum>i\<in>?A - {j}. rank (tasks s (Start_task i)))"
    using assms(1) by (intro sum.remove) simp_all
  ultimately show ?thesis
    by (simp add: start_ranks_def assms(2))
qed

lemma start_ranks_other:
  assumes "tasks s' = (tasks s)(t \<mapsto> p)" and "\<forall>j. t \<noteq> Start_task j"
  shows "start_ranks b s' = start_ranks b s"
proof -
  from assms have "tasks s' (Start_task i) = tasks s (Start_task i)" for i
    by auto
  then show ?thesis
    by (simp add: start_ranks_def)
qed

lemma start_ranks_same: "tasks s' = tasks s \<Longrightarrow> start_ranks b s' = start_ranks b s"
  by (simp add: start_ranks_def)

lemma remaining_main:
  assumes "tasks s' = tasks s" and "called s' = called s"
    and "weight (length (runners b)) (main s') < weight (length (runners b)) (main s)"
  shows "remaining b s' < remaining b s"
  using assms by (simp add: remaining_def start_ranks_same [of s' s])

lemma remaining_task:
  assumes "tasks s t = Some p" and "\<forall>j. t = Start_task j \<longrightarrow> j < length (runners b)"
    and "rank (Some p') < rank (Some p)" and "main s' = main s" and "called s' = called s"
    and "tasks s' = (tasks s)(t \<mapsto> p')"
  shows "remaining b s' < remaining b s"
proof (cases t)
  case Wait_task
  with assms start_ranks_other [OF assms(6), of b] show ?thesis
    by (simp add: remaining_def)
next
  case (Start_task j)
  with assms start_ranks_upd [of j b s' s p'] show ?thesis
    by (simp add: remaining_def)
next
  case OnRun_task
  with assms start_ranks_other [OF assms(6), of b] show ?thesis
    by (simp add: remaining_def)
qed

lemma finish_called: "called (finish t err s) = called s"
  by (simp add: finish_def Let_def)

lemma go_called: "called (go t s) = called s"
  by (simp add: go_def)

lemma remaining_finish:
  assumes "tasks s t = Some p" and "\<forall>j. t = Start_task j \<longrightarrow> j < length (runners b)"
    and "p \<noteq> Finished"
  shows "remaining b (finish t err s) < remaining b s"
proof -
  from assms(3) have "rank (Some Finished) < rank (Some p)"
    by (cases p) simp_all
  with assms(1,2) show ?thesis
    by (rule remaining_task) (simp_all add: finish_fields finish_called)
qed

lemma remaining_go:
  assumes "tasks s t = None" and "\<forall>j. t = Start_task j \<longrightarrow> j < length (runners b)"
    and "weight (length (runners b)) pc \<le> weight (length (runners b)) (main s)"
  shows "remaining b ((go t s)\<lparr>main := pc\<rparr>) < remaining b s"
proof -
  have t: "tasks ((go t s)\<lparr>main := pc\<rparr>) = (tasks s)(t \<mapsto> Spawned)"
    by (simp add: go_fields)
  show ?thesis
  proof (cases t)
    case Wait_task
    with assms start_ranks_other [OF t, of b] show ?thesis
      by (simp add: remaining_def go_fields go_called)
  next
    case (Start_task j)
    with assms start_ranks_upd [of j b "(go t s)\<lparr>main := pc\<rparr>" s Spawned] show ?thesis
      by (simp add: remaining_def go_fields go_called)
  next
    case OnRun_task
    with assms start_ranks_other [OF t, of b] show ?thesis
      by (simp add: remaining_def go_fields go_called)
  qed
qed

lemma registered_le: "in_range n p \<Longrightarrow> registered n p \<le> n"
  by (cases p) simp_all

lemma remaining_call:
  assumes "k < length (runners b)" and "k \<notin> called s"
  shows "remaining b (s\<lparr>called := insert k (called s), trace := tr\<rparr>) < remaining b s"
proof -
  let ?A = "{..<length (runners b)}"
  have "?A - insert k (called s) = (?A - called s) - {k}"
    by auto
  moreover from assms have "k \<in> ?A - called s"
    by simp
  then have "card ((?A - called s) - {k}) < card (?A - called s)"
    by (intro card_Diff1_less) simp_all
  ultimately show ?thesis
    by (simp add: remaining_def start_ranks_def)
qed

text \<open>A step that is not the caller's cancellation leaves the state as it is or brings the
  end nearer.\<close>

lemma remaining_step:
  assumes "control b s" and "counters s" and "gs b \<noteq> None" and "th \<noteq> Cancel"
  shows "step w b s th = s \<or> remaining b (step w b s th) < remaining b s"
proof (cases rule: step_cases [where w = w and b = b and s = s and th = th])
  case stutter
  then show ?thesis by simp
next
  case (panic_done t i)
  with unconfirmed_counted [OF assms(2), of i] show ?thesis by simp
next
  case (shutdown k reason c)
  then have "tasks s Wait_task \<noteq> None"
    by (auto simp: shutting_down_def)
  with assms(1) have cb: "callbacks s = [0..<registered (length (runners b)) (main s)]"
    and "in_range (length (runners b)) (main s)"
    by (auto simp: control_def)
  then have "length (callbacks s) \<le> length (runners b)"
    by (simp add: registered_le)
  with shutdown have "k < length (runners b)"
    by simp
  with shutdown show ?thesis
    by (simp add: remaining_call)
next
  case group
  with control_not_started(1) [OF assms(1)] show ?thesis
    by (simp add: remaining_go)
next
  case (spawn i)
  with control_not_started(2) [OF assms(1)] control_in_group(5) [OF assms(1)] show ?thesis
    by (simp add: remaining_go)
next
  case spawn_onRun
  with control_not_started(3) [OF assms(1)] show ?thesis
    by (simp add: remaining_go)
next
  case (wait_call t c)
  then show ?thesis by (auto intro!: remaining_task)
next
  case (wait_return t c err)
  then show ?thesis by (auto intro!: remaining_finish)
next
  case (start_log t i)
  then show ?thesis by (auto intro!: remaining_task)
next
  case (start_done t i)
  then show ?thesis by (auto intro!: remaining_task)
next
  case (start_call t i)
  then show ?thesis by (auto intro!: remaining_task)
next
  case (start_return t i err)
  then show ?thesis by (auto intro!: remaining_finish)
next
  case (onRun_nil t)
  then show ?thesis by (auto intro!: remaining_finish)
next
  case (onRun_call t fn)
  then show ?thesis by (auto intro!: remaining_task)
next
  case (onRun_return t fn err)
  then show ?thesis by (auto intro!: remaining_finish)
qed (use assms in \<open>auto intro!: remaining_main\<close>)

lemma each_once_mem:
  "Main \<in> set (each_once n reason)" "Task Wait_task \<in> set (each_once n reason)"
  "Task OnRun_task \<in> set (each_once n reason)"
  "i < n \<Longrightarrow> Task (Start_task i) \<in> set (each_once n reason)"
  "i < n \<Longrightarrow> Shutdown i reason \<in> set (each_once n reason)"
  "Cancel \<notin> set (each_once n reason)"
  by (auto simp: each_once_def)

lemma main_moves: "main (step w b s th) \<noteq> main s \<Longrightarrow> step w b s th \<noteq> s"
  by auto

lemma task_moves: "tasks (step w b s th) t \<noteq> tasks s t \<Longrightarrow> step w b s th \<noteq> s"
  by auto

lemma called_moves: "called (step w b s th) \<noteq> called s \<Longrightarrow> step w b s th \<noteq> s"
  by auto

lemma over_done: "over s \<Longrightarrow> egCtx_done s"
  by (auto simp: over_def egCtx_done_def)

lemma task_enabled:
  assumes "counters s" and "shapes b s" and "responsive w b" and "egCtx_done s" and "\<not> panicked s"
    and "tasks s t = Some p" and "p \<noteq> Finished"
    and "\<forall>i. t = Start_task i \<longrightarrow> i < length (runners b)"
  shows "tasks (step w b s (Task t)) t \<noteq> tasks s t"
proof -
  from assms(3) obtain c where c: "gs b = Some c" "Wait w c True \<noteq> None"
    by (auto simp: responsive_def)
  show ?thesis
  proof (cases t)
    case Wait_task
    with assms(2,6,7) consider "p = Spawned" | "p = Blocked"
      by (cases p) (auto simp: shapes_def)
    then show ?thesis
    proof cases
      case 1
      with Wait_task assms(5,6) c show ?thesis
        by (simp add: step_def task_step_def)
    next
      case 2
      with Wait_task assms(4,5,6) c show ?thesis
        by (auto simp: step_def task_step_def finish_fields)
    qed
  next
    case (Start_task i)
    with assms(8) have i: "i < length (runners b)"
      by simp
    then have "runners b ! i \<in> set (runners b)"
      by simp
    with assms(3) have rn: "Run (runners b ! i) True \<noteq> None"
      by (auto simp: responsive_def)
    show ?thesis
    proof (cases p)
      case Logged
      with Start_task assms(6) unconfirmed_counted [OF assms(1), of i] have "waitStart s \<noteq> 0"
        by simp
      with Logged Start_task assms(5,6) i show ?thesis
        by (simp add: step_def task_step_def)
    next
      case Blocked
      with Start_task assms(4,5,6) i rn show ?thesis
        by (auto simp: step_def task_step_def finish_fields Let_def)
    qed (use Start_task assms(5,6,7) i in \<open>simp_all add: step_def task_step_def Let_def\<close>)
  next
    case OnRun_task
    with assms(2,6,7) consider "p = Spawned" | "p = Blocked" "onRun b \<noteq> None"
      by (cases p) (auto simp: shapes_def)
    then show ?thesis
    proof cases
      case 1
      with OnRun_task assms(5,6) show ?thesis
        by (cases "onRun b") (simp_all add: step_def task_step_def finish_fields)
    next
      case 2
      then obtain fn where fn: "onRun b = Some fn"
        by auto
      with assms(3) have "fn True \<noteq> None"
        by (auto simp: responsive_def)
      with 2 fn OnRun_task assms(4,5,6) show ?thesis
        by (auto simp: step_def task_step_def finish_fields)
    qed
  qed
qed

text \<open>Until \<open>Run\<close> has returned and the controller has called every callback, some goroutine
  can take a step.\<close>

lemma enabled:
  assumes "control b s" and "counters s" and "shapes b s" and "outcome b s"
    and "responsive w b" and "over s" and "\<not> panicked s" and "\<not> settled b s"
  shows "\<exists>th \<in> set (each_once (length (runners b)) reason). step w b s th \<noteq> s"
proof -
  let ?n = "length (runners b)"
  from assms(5) obtain c where c: "gs b = Some c" "Wait w c True \<noteq> None"
    by (auto simp: responsive_def)
  have m: "main (step w b s Main) \<noteq> main s \<Longrightarrow> ?thesis"
    using each_once_mem(1) main_moves by blast
  have t: "\<And>t. tasks (step w b s (Task t)) t \<noteq> tasks s t \<Longrightarrow>
             Task t \<in> set (each_once ?n reason) \<Longrightarrow> ?thesis"
    using task_moves by blast
  show ?thesis
  proof (cases "main s")
    case Entry
    with assms(7) show ?thesis
      by (intro m) (simp add: step_def main_step_def)
  next
    case Before
    with assms(7) show ?thesis
      by (intro m) (simp add: step_def main_step_def split: option.splits)
  next
    case Before_wait
    with assms(1) have "tasks s Wait_task = None"
      using control_before_group(1) [OF assms(1)] by simp
    with assms(6) have "ctx_done s"
      by (simp add: over_def)
    with assms(5) have "\<forall>hook. beforeRun b = Some hook \<longrightarrow> hook (ctx_done s) \<noteq> None"
      by (simp add: responsive_def)
    moreover from Before_wait assms(3) have "beforeRun b \<noteq> None"
      by (simp add: shapes_def)
    ultimately show ?thesis
      using Before_wait assms(7)
      by (intro m) (auto simp: step_def main_step_def split: option.splits)
  next
    case Group
    with assms(7) show ?thesis
      by (intro m) (simp add: step_def main_step_def go_fields)
  next
    case (Loop i)
    with assms(7) c show ?thesis
      by (intro m) (simp add: step_def main_step_def)
  next
    case (Add i)
    with assms(7) show ?thesis
      by (intro m) (simp add: step_def main_step_def)
  next
    case (Spawn i)
    with assms(7) show ?thesis
      by (intro m) (simp add: step_def main_step_def go_fields)
  next
    case Barrier
    show ?thesis
    proof (cases "waitStart s = 0")
      case True
      with Barrier assms(7) show ?thesis
        by (intro m) (simp add: step_def main_step_def)
    next
      case False
      with Barrier assms(2) have "unconfirmed s \<noteq> {}"
        by (auto simp: counters_def)
      then obtain i where i: "tasks s (Start_task i) = Some Spawned \<or> tasks s (Start_task i) = Some Logged"
        by (auto simp: unconfirmed_def)
      then have "tasks s (Start_task i) \<noteq> None"
        by auto
      with control_in_group(3) [OF assms(1), of i] Barrier have n: "i < ?n"
        by simp
      from i obtain p where p: "tasks s (Start_task i) = Some p" "p \<noteq> Finished"
        by auto
      from n have "\<forall>j. Start_task i = Start_task j \<longrightarrow> j < ?n"
        by simp
      from task_enabled [OF assms(2,3,5) over_done [OF assms(6)] assms(7) p this]
      have "tasks (step w b s (Task (Start_task i))) (Start_task i) \<noteq> tasks s (Start_task i)" .
      with n show ?thesis
        by (intro t [of "Start_task i"]) (simp_all add: each_once_mem)
    qed
  next
    case Started
    with assms(7) show ?thesis
      by (intro m) (simp add: step_def main_step_def)
  next
    case Spawn_onRun
    with assms(7) show ?thesis
      by (intro m) (simp add: step_def main_step_def go_fields)
  next
    case Eg_wait
    show ?thesis
    proof (cases "eg_wg s = 0")
      case True
      with Eg_wait assms(7) show ?thesis
        by (intro m) (simp add: step_def main_step_def)
    next
      case False
      with assms(2) have "live s \<noteq> {}"
        by (auto simp: counters_def)
      then obtain u p where p: "tasks s u = Some p" "p \<noteq> Finished"
        by (auto simp: live_def)
      from p control_in_group(3) [OF assms(1)] Eg_wait
      have n: "\<forall>i. u = Start_task i \<longrightarrow> i < ?n"
        by auto
      from task_enabled [OF assms(2,3,5) over_done [OF assms(6)] assms(7) p n]
      have "tasks (step w b s (Task u)) u \<noteq> tasks s u" .
      moreover from n have "Task u \<in> set (each_once ?n reason)"
        by (cases u) (simp_all add: each_once_mem)
      ultimately show ?thesis
        by (rule t)
    qed
  next
    case (Returned r)
    with assms(8) obtain k where k: "tasks s Wait_task \<noteq> None" "k < ?n" "k \<notin> called s"
      by (auto simp: settled_def)
    with Returned assms(4) have "tasks s Wait_task = Some Finished"
      by (auto simp: outcome_def)
    moreover from k Returned assms(1) have "callbacks s = [0..<?n]"
      by (auto simp: control_def)
    ultimately have "called (step w b s (Shutdown k reason)) \<noteq> called s"
      using k c assms(7) by (auto simp: step_def shutdown_step_def shutting_down_def)
    with k(2) show ?thesis
      using each_once_mem(5) called_moves by blast
  qed
qed

lemma round_progress:
  assumes "gs b \<noteq> None" and "Cancel \<notin> set ths"
  shows "bootstrap_Run w b (sched @ ths) = bootstrap_Run w b sched
           \<and> (\<forall>th \<in> set ths. step w b (bootstrap_Run w b sched) th = bootstrap_Run w b sched)
         \<or> remaining b (bootstrap_Run w b (sched @ ths)) < remaining b (bootstrap_Run w b sched)"
  using assms(2)
proof (induction ths rule: rev_induct)
  case Nil
  show ?case by simp
next
  case (snoc th ths)
  define s where "s = bootstrap_Run w b sched"
  define s1 where "s1 = bootstrap_Run w b (sched @ ths)"
  have s2: "bootstrap_Run w b (sched @ ths @ [th]) = step w b s1 th"
    using Run_snoc [of w b "sched @ ths" th] by (simp add: s1_def)
  from snoc have IH: "s1 = s \<and> (\<forall>th \<in> set ths. step w b s th = s) \<or> remaining b s1 < remaining b s"
    and th: "th \<noteq> Cancel"
    by (auto simp: s_def s1_def)
  from reachable [of b w "sched @ ths"] have "control b s1" "counters s1"
    by (simp_all add: s1_def)
  from remaining_step [OF this assms(1) th, of w]
  have st: "step w b s1 th = s1 \<or> remaining b (step w b s1 th) < remaining b s1" .
  from IH st have "step w b s1 th = s \<and> (\<forall>th \<in> set (ths @ [th]). step w b s th = s)
     \<or> remaining b (step w b s1 th) < remaining b s"
    by auto
  then show ?case
    unfolding s2 s_def [symmetric] by simp
qed

lemma round:
  assumes "responsive w b" and "over (bootstrap_Run w b sched)"
    and "\<not> settled b (bootstrap_Run w b sched)"
  shows "remaining b (bootstrap_Run w b (sched @ each_once (length (runners b)) reason))
         < remaining b (bootstrap_Run w b sched)"
proof -
  from assms(1) have g: "gs b \<noteq> None"
    by (auto simp: responsive_def)
  note inv = reachable [of b w sched] reachable_shapes [of b w sched]
    reachable_outcome [of w b sched] no_panic [OF g, of w sched]
  from inv assms have "\<exists>th \<in> set (each_once (length (runners b)) reason).
        step w b (bootstrap_Run w b sched) th \<noteq> bootstrap_Run w b sched"
    by (intro enabled) simp_all
  with round_progress [OF g each_once_mem(6), of w sched "length (runners b)" reason]
  show ?thesis
    by blast
qed

lemma idle_returned:
  "returned (main s) \<Longrightarrow> tasks s Wait_task = None \<Longrightarrow> tasks (step w b s th) Wait_task = None"
  by (cases rule: step_cases [where w = w and b = b and s = s and th = th])
     (auto simp: go_fields finish_fields)

lemma settled_step:
  assumes "settled b s"
  shows "settled b (step w b s th)"
proof -
  from assms have r: "returned (main s)"
    by (simp add: settled_def)
  show ?thesis
  proof (cases "tasks s Wait_task = None")
    case True
    with r idle_returned [OF r True, of w b th] returned_step [OF r, of w b th] show ?thesis
      by (simp add: settled_def)
  next
    case False
    with assms called_step [of s w b th] returned_step [OF r, of w b th] show ?thesis
      by (auto simp: settled_def)
  qed
qed

lemma settled_append:
  "settled b (bootstrap_Run w b sched) \<Longrightarrow> settled b (bootstrap_Run w b (sched @ ext))"
proof (induction ext rule: rev_induct)
  case Nil
  then show ?case by simp
next
  case (snoc th ext)
  then show ?case
    by (simp add: Run_snoc [of w b "sched @ ext" th, simplified] settled_step)
qed

lemma rounds:
  assumes "responsive w b" and "over (bootstrap_Run w b sched)"
  shows "settled b (bootstrap_Run w b (sched @ concat (replicate K (each_once (length (runners b)) reason))))
       \<or> remaining b (bootstrap_Run w b (sched @ concat (replicate K (each_once (length (runners b)) reason)))) + K
           \<le> remaining b (bootstrap_Run w b sched)"
  using assms(2)
proof (induction K arbitrary: sched)
  case 0
  show ?case by simp
next
  case (Suc K)
  let ?r = "each_once (length (runners b)) reason"
  let ?rest = "concat (replicate K ?r)"
  have eq: "sched @ concat (replicate (Suc K) ?r) = (sched @ ?r) @ ?rest"
    by simp
  show ?case
  proof (cases "settled b (bootstrap_Run w b sched)")
    case True
    then show ?thesis
      by (simp add: settled_append)
  next
    case False
    from round [OF assms(1) Suc.prems False, of reason]
    have lt: "remaining b (bootstrap_Run w b (sched @ ?r)) < remaining b (bootstrap_Run w b sched)" .
    from Suc.prems have "over (bootstrap_Run w b (sched @ ?r))"
      by (rule over_append)
    from Suc.IH [OF this] lt show ?thesis
      unfolding eq by auto
  qed
qed

lemma weight_bound: "weight n p \<le> 3 * n + 9"
  by (cases p) simp_all

lemma rank_bound: "rank p \<le> 5"
  by (cases p rule: rank.cases) simp_all

lemma remaining_bound: "remaining b s \<le> 9 * length (runners b) + 19"
proof -
  let ?n = "length (runners b)"
  have "start_ranks b s \<le> (\<Sum>i<?n. 5)"
    unfolding start_ranks_def by (intro sum_mono rank_bound)
  moreover have "card ({..<?n} - called s) \<le> card {..<?n}"
    by (intro card_mono) auto
  ultimately show ?thesis
    using weight_bound [of ?n "main s"] rank_bound [of "tasks s Wait_task"]
      rank_bound [of "tasks s OnRun_task"]
    by (simp add: remaining_def)
qed

lemma remaining_0:
  assumes "remaining b s = 0"
  shows "settled b s"
proof -
  from assms have "weight (length (runners b)) (main s) = 0"
    and "card ({..<length (runners b)} - called s) = 0"
    by (simp_all add: remaining_def)
  then have "returned (main s)" and "{..<length (runners b)} \<subseteq> called s"
    by (cases "main s"; simp)+
  then show ?thesis
    by (simp add: settled_def)
qed

text \<open>Once the context of the group is done, fair scheduling brings \<open>Run\<close> to its return and
  the controller through its callbacks.\<close>

lemma drained:
  assumes "responsive w b" and "over (bootstrap_Run w b sched)"
  shows "settled b (bootstrap_Run w b (sched @ drain (length (runners b)) reason))"
proof -
  let ?s' = "bootstrap_Run w b (sched @ drain (length (runners b)) reason)"
  from rounds [OF assms, of "9 * length (runners b) + 19" reason]
  have "settled b ?s' \<or> remaining b ?s' + (9 * length (runners b) + 19)
           \<le> remaining b (bootstrap_Run w b sched)"
    by (simp add: drain_def)
  with remaining_bound [of b "bootstrap_Run w b sched"] have "settled b ?s' \<or> remaining b ?s' = 0"
    by auto
  with remaining_0 show ?thesis
    by blast
qed

lemma count_callback_stop:
  "count_list (callback w b i reason) (Stop_called k) = (if k = i then 1 else 0)"
  by (auto simp: callback_def Let_def info_def split: option.splits)

lemma callback_returns:
  "Callback_returned k err \<in> set (callback w b i reason) \<longleftrightarrow> k = i \<and> err = callback_result b i"
  by (auto simp: callback_def callback_result_def wrap_def Let_def info_def split: option.splits)

lemma handled_member:
  "Handled x \<in> set (handled c err) \<longleftrightarrow> err = Some x"
  by (auto simp: handled_def split: option.splits controller.splits shutdown_option.splits)

lemma stops_init: "stops b init"
  by (simp add: stops_def init_def)

lemma stops_same:
  assumes "stops b s" and "called s' = called s" and "trace s' = trace s @ evs"
    and "\<forall>ev \<in> set evs. (\<forall>k. ev \<noteq> Stop_called k) \<and> (\<forall>k r. ev \<noteq> Callback_returned k r)
           \<and> (\<forall>x. ev \<noteq> Handled x)"
  shows "stops b s'"
proof -
  from assms(4) have c: "count_list evs (Stop_called k) = 0" for k
    by (auto simp: count_list_0_iff)
  from assms(4) have m: "Callback_returned k r \<notin> set evs" "Handled x \<notin> set evs" for k r x
    by auto
  from assms(1) show ?thesis
    unfolding stops_def assms(2,3) by (auto simp: c m)
qed

lemma stops_step:
  assumes "control b s" and "stops b s"
  shows "stops b (step w b s th)"
proof (cases rule: step_cases [where w = w and b = b and s = s and th = th])
  case stutter
  with assms(2) show ?thesis by simp
next
  case (shutdown k reason c)
  then have "tasks s Wait_task \<noteq> None"
    by (auto simp: shutting_down_def)
  with assms(1) have cb: "callbacks s = [0..<registered (length (runners b)) (main s)]"
    by (auto simp: control_def)
  with shutdown have k: "callbacks s ! k = k"
    by simp
  with shutdown have n: "k < length (runners b)"
    by simp
  let ?evs = "callback w b k reason @ handled c (callback_result b k)"
  have tr: "trace (step w b s th) = trace s @ ?evs"
    and cl: "called (step w b s th) = insert k (called s)"
    using shutdown k by simp_all
  have c1: "count_list ?evs (Stop_called j) = (if j = k then 1 else 0)" for j
    by (simp add: count_callback_stop count_handled)
  have c2: "Callback_returned j err \<in> set ?evs \<longleftrightarrow> j = k \<and> err = callback_result b k" for j err
    by (auto simp: callback_returns dest: handled_events)
  have c3: "Handled x \<in> set ?evs \<longleftrightarrow> callback_result b k = Some x" for x
    by (auto simp: handled_member dest: callback_events)
  from shutdown have nc: "k \<notin> called s" and gsb: "gs b = Some c"
    by simp_all
  from assms(2) have old: "\<And>j. count_list (trace s) (Stop_called j) = (if j \<in> called s then 1 else 0)"
    "\<And>j err. Callback_returned j err \<in> set (trace s) \<Longrightarrow> j \<in> called s \<and> err = callback_result b j"
    "\<And>j. j \<in> called s \<Longrightarrow> j < length (runners b)
         \<and> Callback_returned j (callback_result b j) \<in> set (trace s)
         \<and> (\<forall>c. gs b = Some c \<longrightarrow> set (handled c (callback_result b j)) \<subseteq> set (trace s))"
    "\<And>x. Handled x \<in> set (trace s) \<Longrightarrow> \<exists>j \<in> called s. callback_result b j = Some x"
    unfolding stops_def by blast+
  show ?thesis
    unfolding stops_def tr cl
  proof (intro conjI allI impI)
    fix j
    show "count_list (trace s @ ?evs) (Stop_called j) = (if j \<in> insert k (called s) then 1 else 0)"
      using old(1) [of j] nc c1 [of j] by (auto split: if_splits)
  next
    fix j err
    assume "Callback_returned j err \<in> set (trace s @ ?evs)"
    then have "Callback_returned j err \<in> set (trace s) \<or> Callback_returned j err \<in> set ?evs"
      by auto
    with old(2) [of j err] c2 [of j err]
    show "j \<in> insert k (called s)" and "err = callback_result b j"
      by auto
  next
    fix j
    assume j: "j \<in> insert k (called s)"
    with old(3) [of j] n show "j < length (runners b)"
      by auto
    from j old(3) [of j] c2 [of k "callback_result b k"]
    show "Callback_returned j (callback_result b j) \<in> set (trace s @ ?evs)"
      by auto
    fix c'
    assume "gs b = Some c'"
    with gsb have "c' = c"
      by simp
    with j old(3) [of j] gsb show "set (handled c' (callback_result b j)) \<subseteq> set (trace s @ ?evs)"
      by auto
  next
    fix x
    assume "Handled x \<in> set (trace s @ ?evs)"
    then have "Handled x \<in> set (trace s) \<or> Handled x \<in> set ?evs"
      by auto
    with old(4) [of x] c3 [of x] show "\<exists>j \<in> insert k (called s). callback_result b j = Some x"
      by auto
  qed
qed (use assms(2) in \<open>auto intro!: stops_same [of b s] simp: go_fields finish_fields go_called finish_called
       dest: info_events\<close>)

lemma reachable_stops: "stops b (bootstrap_Run w b sched)"
proof (induction sched rule: rev_induct)
  case Nil
  show ?case by (simp add: Run_Nil stops_init)
next
  case (snoc th sched)
  with reachable [of b w sched] show ?case
    by (simp add: Run_snoc stops_step)
qed

lemma trace_step: "\<exists>evs. trace (step w b s th) = trace s @ evs"
  by (cases rule: step_cases [where w = w and b = b and s = s and th = th])
     (auto simp: go_fields finish_fields)

lemma trace_append:
  "\<exists>evs. trace (bootstrap_Run w b (sched @ ext)) = trace (bootstrap_Run w b sched) @ evs"
proof (induction ext rule: rev_induct)
  case Nil
  show ?case by simp
next
  case (snoc th ext)
  then obtain evs where "trace (bootstrap_Run w b (sched @ ext)) = trace (bootstrap_Run w b sched) @ evs"
    by blast
  moreover from trace_step [of w b "bootstrap_Run w b (sched @ ext)" th]
  obtain evs' where "trace (bootstrap_Run w b (sched @ ext @ [th]))
      = trace (bootstrap_Run w b (sched @ ext)) @ evs'"
    using Run_snoc [of w b "sched @ ext" th] by auto
  ultimately show ?case
    by simp
qed

lemma first_failure_kept:
  assumes "first_failure (trace (bootstrap_Run w b sched)) = Some tx"
  shows "first_failure (trace (bootstrap_Run w b (sched @ ext))) = Some tx"
proof -
  from trace_append [of w b sched ext] obtain evs
    where "trace (bootstrap_Run w b (sched @ ext)) = trace (bootstrap_Run w b sched) @ evs"
    by blast
  with assms show ?thesis
    by (simp add: first_failure_append)
qed

lemma member_kept:
  assumes "ev \<in> set (trace (bootstrap_Run w b sched))"
  shows "ev \<in> set (trace (bootstrap_Run w b (sched @ ext)))"
proof -
  from trace_append [of w b sched ext] obtain evs
    where "trace (bootstrap_Run w b (sched @ ext)) = trace (bootstrap_Run w b sched) @ evs"
    by blast
  with assms show ?thesis
    by simp
qed

lemma failure_first:
  "Task_returned t (Some y) \<in> set tr \<Longrightarrow> \<exists>u x. first_failure tr = Some (u, x)"
  by (induction tr rule: first_failure.induct) auto

lemma failure_over:
  assumes "first_failure (trace (bootstrap_Run w b sched)) = Some (t, x)"
  shows "over (bootstrap_Run w b sched)"
proof -
  define s where "s = bootstrap_Run w b sched"
  note inv = reachable [of b w sched, folded s_def] reachable_trace [of w b sched, folded s_def]
    reachable_returned_log [of w b sched, folded s_def]
  from assms have ff: "first_failure (trace s) = Some (t, x)"
    by (simp add: s_def)
  then have "Task_returned t (Some x) \<in> set (trace s)"
    by (rule first_failure_member)
  with inv have "tasks s t \<noteq> None"
    by (auto simp: returned_log_def)
  with inv have "tasks s Wait_task \<noteq> None"
    by (auto simp: control_def pristine_def split: if_splits)
  moreover from inv ff have "eg_cancelled s"
    by (simp add: errors_def)
  ultimately show ?thesis
    by (simp add: over_def s_def)
qed

text \<open>What has happened when \<open>Run\<close> has returned from the group and the controller is through
  its callbacks.\<close>

lemma settled_run:
  assumes "settled b (bootstrap_Run w b sched)"
    and "tasks (bootstrap_Run w b sched) Wait_task \<noteq> None"
  shows "main (bootstrap_Run w b sched)
           = Returned (result (map_option snd (first_failure (trace (bootstrap_Run w b sched)))))"
    and "count_list (trace (bootstrap_Run w b sched)) BeforeRun_called
           = (if beforeRun b = None then 0 else 1)"
    and "count_list (trace (bootstrap_Run w b sched)) OnRun_called
           = (if onRun b = None then 0 else 1)"
    and "k < length (runners b) \<Longrightarrow>
           count_list (trace (bootstrap_Run w b sched)) (Stop_called k) = 1
           \<and> Callback_returned k (callback_result b k) \<in> set (trace (bootstrap_Run w b sched))
           \<and> (\<forall>c. gs b = Some c \<longrightarrow>
                  set (handled c (callback_result b k)) \<subseteq> set (trace (bootstrap_Run w b sched)))"
proof -
  define s where "s = bootstrap_Run w b sched"
  note inv = reachable [of b w sched, folded s_def] reachable_trace [of w b sched, folded s_def]
    reachable_outcome [of w b sched, folded s_def] reachable_stops [of b w sched, folded s_def]
  from assms have st: "settled b s" and wt: "tasks s Wait_task \<noteq> None"
    by (simp_all add: s_def)
  from st obtain r where r: "main s = Returned r"
    by (cases "main s") (simp_all add: settled_def)
  with inv wt have "r = result (eg_err s)" and fin: "\<And>t p. tasks s t = Some p \<Longrightarrow> p = Finished"
    by (auto simp: outcome_def)
  with inv r show "main (bootstrap_Run w b sched)
           = Returned (result (map_option snd (first_failure (trace (bootstrap_Run w b sched)))))"
    by (simp add: errors_def s_def [symmetric])
  have ne: "runners b \<noteq> []"
  proof
    assume "runners b = []"
    from no_runners_state [OF this, of w sched] wt show False
      by (simp add: s_def)
  qed
  with inv r show "count_list (trace (bootstrap_Run w b sched)) BeforeRun_called
           = (if beforeRun b = None then 0 else 1)"
    by (simp add: hook_calls_def s_def [symmetric])
  from inv wt r have "tasks s OnRun_task \<noteq> None"
    by (auto simp: control_def)
  with fin have "tasks s OnRun_task = Some Finished"
    by auto
  with inv show "count_list (trace (bootstrap_Run w b sched)) OnRun_called
           = (if onRun b = None then 0 else 1)"
    by (simp add: hook_calls_def s_def [symmetric])
  assume "k < length (runners b)"
  with st wt have "k \<in> called s"
    by (auto simp: settled_def)
  with inv have "count_list (trace s) (Stop_called k) = 1
           \<and> Callback_returned k (callback_result b k) \<in> set (trace s)
           \<and> (\<forall>c. gs b = Some c \<longrightarrow> set (handled c (callback_result b k)) \<subseteq> set (trace s))"
    unfolding stops_def by simp
  then show "count_list (trace (bootstrap_Run w b sched)) (Stop_called k) = 1
           \<and> Callback_returned k (callback_result b k) \<in> set (trace (bootstrap_Run w b sched))
           \<and> (\<forall>c. gs b = Some c \<longrightarrow>
                  set (handled c (callback_result b k)) \<subseteq> set (trace (bootstrap_Run w b sched)))"
    by (simp add: s_def)
qed

lemma failure_started:
  assumes "first_failure (trace (bootstrap_Run w b sched)) = Some (t, x)"
  shows "tasks (bootstrap_Run w b sched) Wait_task \<noteq> None"
  using failure_over [OF assms] reachable [of b w sched] reachable_returned_log [of w b sched]
    first_failure_member [OF assms]
  by (auto simp: control_def pristine_def returned_log_def split: if_splits)

text \<open>After a task of the group has returned an error, \<open>Run\<close> returns.\<close>

lemma failure_drained:
  assumes "responsive w b" and "first_failure (trace (bootstrap_Run w b sched)) = Some (t, x)"
  shows "settled b (bootstrap_Run w b (sched @ drain (length (runners b)) reason))"
    and "tasks (bootstrap_Run w b (sched @ drain (length (runners b)) reason)) Wait_task \<noteq> None"
    and "main (bootstrap_Run w b (sched @ drain (length (runners b)) reason))
           = Returned (if Is x Canceled then None else Some (WithMessage x ''bootstrap run err''))"
proof -
  let ?ext = "sched @ drain (length (runners b)) reason"
  from assms(1) failure_over [OF assms(2)] show st: "settled b (bootstrap_Run w b ?ext)"
    by (rule drained)
  from first_failure_kept [OF assms(2)]
  have ff: "first_failure (trace (bootstrap_Run w b ?ext)) = Some (t, x)" .
  then show wt: "tasks (bootstrap_Run w b ?ext) Wait_task \<noteq> None"
    by (rule failure_started)
  from settled_run(1) [OF st wt] ff
  show "main (bootstrap_Run w b ?ext)
           = Returned (if Is x Canceled then None else Some (WithMessage x ''bootstrap run err''))"
    by (simp add: result_def)
qed

lemma cooperative_clean: "cooperative w b \<Longrightarrow> clean w b"
  unfolding cooperative_def clean_def
  by (auto split: if_splits)

lemma cooperative_responsive: "cooperative w b \<Longrightarrow> responsive w b"
  unfolding cooperative_def responsive_def by auto

lemma cooperative_nil:
  assumes "cooperative w b" and "main (bootstrap_Run w b sched) = Returned r"
  shows "r = None"
proof (cases "tasks (bootstrap_Run w b sched) Wait_task = None")
  case True
  with assms(2) reachable_outcome [of w b sched]
  have "runners b = [] \<and> r = None
      \<or> (\<exists>hook d e. beforeRun b = Some hook \<and> hook d = Some (Some e) \<and> r = Some e)"
    by (auto simp: outcome_def)
  with assms(1) show ?thesis
    by (auto simp: cooperative_def)
next
  case False
  with reachable_outcome [of w b sched]
  have "Go Wait_task \<in> set (trace (bootstrap_Run w b sched))"
    by (simp add: started_log_def)
  with cooperative_clean [OF assms(1)] assms(2) show ?thesis
    by (rule clean_returns_nil)
qed

lemma cancel_over:
  assumes "gs b \<noteq> None"
  shows "over (bootstrap_Run w b (sched @ [Cancel]))"
  using no_panic [OF assms, of w sched]
  by (simp add: Run_snoc step_def over_def)

text \<open>After the caller has cancelled the context, \<open>Run\<close> returns.\<close>

lemma cancel_drained:
  assumes "responsive w b"
  shows "settled b (bootstrap_Run w b (sched @ Cancel # drain (length (runners b)) reason))"
proof -
  from assms have "gs b \<noteq> None"
    by (auto simp: responsive_def)
  from drained [OF assms cancel_over [OF this, of w sched], of reason] show ?thesis
    by simp
qed

lemma cooperative_started:
  assumes "cooperative w b" and "runners b \<noteq> []" and "returned (main (bootstrap_Run w b sched))"
  shows "tasks (bootstrap_Run w b sched) Wait_task \<noteq> None"
proof
  assume "tasks (bootstrap_Run w b sched) Wait_task = None"
  moreover from assms(3) obtain r where "main (bootstrap_Run w b sched) = Returned r"
    by (cases "main (bootstrap_Run w b sched)") simp_all
  ultimately have "runners b = [] \<and> r = None
      \<or> (\<exists>hook d e. beforeRun b = Some hook \<and> hook d = Some (Some e) \<and> r = Some e)"
    using reachable_outcome [of w b sched] by (auto simp: outcome_def)
  with assms(1,2) show False
    by (auto simp: cooperative_def)
qed

section \<open>The executions of the tests\<close>

lemmas run_defs = bootstrap_Run_def New_def WithRunners_def WithBeforeRun_def WithOnRun_def
  testRunner_def otherRunner_def hook_ok_def hook_fails_def test_world_def
  stopFailRunner_def failingRunner_def cancellingRunner_def ctx_err_def
  init_def step_def main_step_def task_step_def shutdown_step_def shutting_down_def callback_def
  callback_result_def handled_def go_def finish_def egCtx_done_def info_def result_def wrap_def

lemma cancelled_run:
  "main (bootstrap_Run test_world run_test cancelled) = Returned None"
  "trace (bootstrap_Run test_world run_test cancelled)
     = [BeforeRun_called, BeforeRun_returned None, Go Wait_task, AddShutdownCallback 0,
        Go (Start_task 0), Log InfoLevel ''Starting runner: testRunner'', WaitStart_Done 0,
        Run_called 0, Log InfoLevel ''bootstrap started.'', Go OnRun_task, OnRun_called,
        Task_returned OnRun_task None, Wait_called, Task_returned Wait_task (Some Canceled),
        Log InfoLevel ''Stopping runner: testRunner, cause: context canceled'', Stop_called 0,
        Log InfoLevel ''Runner stoped: testRunner'', Callback_returned 0 None,
        Task_returned (Start_task 0) None]"
  by (simp_all add: run_defs run_test_def cancelled_def)

lemma start_fails_run:
  "main (bootstrap_Run test_world run_err_test start_fails)
     = Returned (Some (WithMessage (WithMessage (Failure ''test'') ''starting testRunner failed'')
                         ''bootstrap run err''))"
  "trace (bootstrap_Run test_world run_err_test start_fails)
     = [BeforeRun_called, BeforeRun_returned None, Go Wait_task, AddShutdownCallback 0,
        Go (Start_task 0), Log InfoLevel ''Starting runner: testRunner'', WaitStart_Done 0,
        Run_called 0,
        Task_returned (Start_task 0)
          (Some (WithMessage (Failure ''test'') ''starting testRunner failed'')),
        Log InfoLevel ''bootstrap started.'', Go OnRun_task, OnRun_called,
        Task_returned OnRun_task None, Wait_called, Task_returned Wait_task (Some Canceled),
        Log InfoLevel ''Stopping runner: testRunner, cause: context canceled'', Stop_called 0,
        Log InfoLevel ''Runner stoped: testRunner'', Callback_returned 0 None]"
  by (simp_all add: run_defs run_err_test_def start_fails_def)

lemma cancel_late_runner:
  "main (bootstrap_Run test_world ctx_err_runner cancel_late) = Returned None"
  "trace (bootstrap_Run test_world ctx_err_runner cancel_late)
     = [Go Wait_task, AddShutdownCallback 0, Go (Start_task 0),
        Log InfoLevel ''Starting runner: testRunner'', WaitStart_Done 0, Run_called 0,
        Log InfoLevel ''bootstrap started.'', Go OnRun_task, Task_returned OnRun_task None,
        Wait_called,
        Task_returned (Start_task 0) (Some (WithMessage Canceled ''starting testRunner failed'')),
        Task_returned Wait_task (Some Canceled),
        Log InfoLevel ''Stopping runner: testRunner, cause: context canceled'', Stop_called 0,
        Log InfoLevel ''Runner stoped: testRunner'', Callback_returned 0 None]"
  by (simp_all add: run_defs ctx_err_runner_def cancel_late_def)

lemma first_wins_two_failing:
  "main (bootstrap_Run test_world two_failing first_wins)
     = Returned (Some (WithMessage (WithMessage (Failure ''test'') ''starting testRunner failed'')
                         ''bootstrap run err''))"
  "trace (bootstrap_Run test_world two_failing first_wins)
     = [Go Wait_task, AddShutdownCallback 0, Go (Start_task 0),
        Log InfoLevel ''Starting runner: testRunner'', WaitStart_Done 0, Run_called 0,
        Task_returned (Start_task 0)
          (Some (WithMessage (Failure ''test'') ''starting testRunner failed'')),
        AddShutdownCallback 1, Go (Start_task 1),
        Log InfoLevel ''Starting runner: otherRunner'', WaitStart_Done 1, Run_called 1,
        Task_returned (Start_task 1)
          (Some (WithMessage (Failure ''test'') ''starting otherRunner failed'')),
        Log InfoLevel ''bootstrap started.'', Go OnRun_task, Task_returned OnRun_task None,
        Wait_called, Task_returned Wait_task (Some Canceled),
        Log InfoLevel ''Stopping runner: testRunner, cause: context canceled'', Stop_called 0,
        Log InfoLevel ''Runner stoped: testRunner'', Callback_returned 0 None,
        Log InfoLevel ''Stopping runner: otherRunner, cause: context canceled'', Stop_called 1,
        Log InfoLevel ''Runner stoped: otherRunner'', Callback_returned 1 None]"
  by (simp_all add: run_defs two_failing_def first_wins_def)

lemma onRun_fails_run:
  "main (bootstrap_Run test_world onRun_fail_test onRun_fails)
     = Returned (Some (WithMessage (WithMessage (Failure ''test'') ''onRun err'')
                         ''bootstrap run err''))"
  "trace (bootstrap_Run test_world onRun_fail_test onRun_fails)
     = [Go Wait_task, AddShutdownCallback 0, Go (Start_task 0),
        Log InfoLevel ''Starting runner: testRunner'', WaitStart_Done 0, Run_called 0,
        Log InfoLevel ''bootstrap started.'', Go OnRun_task, OnRun_called,
        Task_returned OnRun_task (Some (WithMessage (Failure ''test'') ''onRun err'')),
        Wait_called, Task_returned Wait_task (Some Canceled),
        Log InfoLevel ''Stopping runner: testRunner, cause: context canceled'', Stop_called 0,
        Log InfoLevel ''Runner stoped: testRunner'', Callback_returned 0 None,
        Task_returned (Start_task 0) None]"
  by (simp_all add: run_defs onRun_fail_test_def onRun_fails_def)

lemma stop_fails_run:
  "main (bootstrap_Run test_world runner_stop_fail_test stop_fails) = Returned None"
  "trace (bootstrap_Run test_world runner_stop_fail_test stop_fails)
     = [Go Wait_task, AddShutdownCallback 0, Go (Start_task 0),
        Log InfoLevel ''Starting runner: testRunner'', WaitStart_Done 0, Run_called 0,
        Log InfoLevel ''bootstrap started.'', Go OnRun_task, Task_returned OnRun_task None,
        Wait_called, Task_returned Wait_task (Some Canceled),
        Log InfoLevel ''Stopping runner: testRunner, cause: context canceled'', Stop_called 0,
        Callback_returned 0
          (Some (WithMessage (Failure ''test'') ''stopping testRunner failed'')),
        Handled (WithMessage (Failure ''test'') ''stopping testRunner failed''),
        Log ErrorLevel ''error when shutting down'', Task_returned (Start_task 0) None]"
  by (simp_all add: run_defs runner_stop_fail_test_def stop_fails_def)

lemma cancel_late_hook:
  "main (bootstrap_Run test_world ctx_err_hook cancel_late) = Returned None"
  "trace (bootstrap_Run test_world ctx_err_hook cancel_late)
     = [Go Wait_task, AddShutdownCallback 0, Go (Start_task 0),
        Log InfoLevel ''Starting runner: testRunner'', WaitStart_Done 0, Run_called 0,
        Log InfoLevel ''bootstrap started.'', Go OnRun_task, OnRun_called, Wait_called,
        Task_returned (Start_task 0) None,
        Task_returned OnRun_task (Some (WithMessage Canceled ''onRun err'')),
        Task_returned Wait_task (Some Canceled),
        Log InfoLevel ''Stopping runner: testRunner, cause: context canceled'', Stop_called 0,
        Log InfoLevel ''Runner stoped: testRunner'', Callback_returned 0 None]"
  by (simp_all add: run_defs ctx_err_hook_def cancel_late_def)

lemma first_wins_both_fail:
  "main (bootstrap_Run test_world both_fail first_wins)
     = Returned (Some (WithMessage (WithMessage (Failure ''test'') ''starting testRunner failed'')
                         ''bootstrap run err''))"
  "trace (bootstrap_Run test_world both_fail first_wins)
     = [Go Wait_task, AddShutdownCallback 0, Go (Start_task 0),
        Log InfoLevel ''Starting runner: testRunner'', WaitStart_Done 0, Run_called 0,
        Task_returned (Start_task 0)
          (Some (WithMessage (Failure ''test'') ''starting testRunner failed'')),
        Log InfoLevel ''bootstrap started.'', Go OnRun_task, OnRun_called,
        Task_returned OnRun_task (Some (WithMessage (Failure ''test'') ''onRun err'')),
        Wait_called, Task_returned Wait_task (Some Canceled),
        Log InfoLevel ''Stopping runner: testRunner, cause: context canceled'', Stop_called 0,
        Log InfoLevel ''Runner stoped: testRunner'', Callback_returned 0 None]"
  by (simp_all add: run_defs both_fail_def first_wins_def)

lemmas fixture_defs = New_def WithRunners_def WithBeforeRun_def WithOnRun_def testRunner_def
  hook_ok_def hook_fails_def test_world_def stopFailRunner_def failingRunner_def
  run_test_def run_err_test_def onRun_fail_test_def runner_stop_fail_test_def

lemma test_contracts:
  "responsive test_world run_err_test" "responsive test_world onRun_fail_test"
  "cooperative test_world run_test" "cooperative test_world runner_stop_fail_test"
  by (simp_all add: responsive_def cooperative_def fixture_defs)

lemma test_runners:
  "length (runners run_err_test) = 1" "length (runners onRun_fail_test) = 1"
  "length (runners runner_stop_fail_test) = 1" "length (runners run_test) = 1"
  "Name (runners run_err_test ! 0) = ''testRunner''"
  "Name (runners runner_stop_fail_test ! 0) = ''testRunner''"
  "Stop (runners runner_stop_fail_test ! 0) = Some (Failure ''test'')"
  "beforeRun run_err_test \<noteq> None" "onRun run_err_test \<noteq> None"
  "beforeRun onRun_fail_test = None" "runners runner_stop_fail_test \<noteq> []"
  "gs runner_stop_fail_test
     = Some (NewGraceful [WithTimeout Second, WithErrorHandler ''error when shutting down'',
                          WithTrigger ''posixsignal''])"
  by (simp_all add: fixture_defs)

section \<open>What Run returns, and failures\<close>

text \<open>The parts of the theorems below, each for every schedule.\<close>

lemma called_gs_step: "called (step w b s th) \<noteq> called s \<Longrightarrow> gs b \<noteq> None"
  by (cases rule: step_cases [where w = w and b = b and s = s and th = th])
     (auto simp: go_called finish_called)

lemma called_gs:
  "k \<in> called (bootstrap_Run w b sched) \<Longrightarrow> \<exists>c. gs b = Some c"
proof (induction sched rule: rev_induct)
  case Nil
  then show ?case by (simp add: Run_Nil init_def)
next
  case (snoc th sched)
  show ?case
  proof (cases "called (bootstrap_Run w b (sched @ [th])) = called (bootstrap_Run w b sched)")
    case True
    with snoc show ?thesis by simp
  next
    case False
    then show ?thesis
      using called_gs_step [of w b "bootstrap_Run w b sched" th] by (auto simp: Run_snoc)
  qed
qed

lemma stopped_called:
  assumes "Stop_called k \<in> set (trace (bootstrap_Run w b sched))"
  shows "k \<in> called (bootstrap_Run w b sched)"
proof (rule ccontr)
  assume "k \<notin> called (bootstrap_Run w b sched)"
  with reachable_stops [of b w sched]
  have "count_list (trace (bootstrap_Run w b sched)) (Stop_called k) = 0"
    unfolding stops_def by simp
  with assms show False
    by (simp add: count_list_0_iff)
qed

lemma called_facts:
  assumes "k \<in> called (bootstrap_Run w b sched)"
  shows "k < length (runners b)"
    and "count_list (trace (bootstrap_Run w b sched)) (Stop_called k) = 1"
    and "Callback_returned k (callback_result b k) \<in> set (trace (bootstrap_Run w b sched))"
    and "gs b = Some c \<Longrightarrow>
           set (handled c (callback_result b k)) \<subseteq> set (trace (bootstrap_Run w b sched))"
  using assms reachable_stops [of b w sched] unfolding stops_def by simp_all

lemma handled_logs:
  "WithErrorHandler msg \<in> set opts \<Longrightarrow> Log ErrorLevel msg \<in> set (handled (NewGraceful opts) (Some x))"
  by (force simp: handled_def)

lemma run_group_error:
  "eg_err (bootstrap_Run w b sched) = map_option snd (first_failure (trace (bootstrap_Run w b sched)))"
  using reachable_trace [of w b sched] by (simp add: errors_def)

lemma run_failure_held:
  "(\<forall>t x. first_failure (trace (bootstrap_Run w b sched)) = Some (t, x) \<longrightarrow>
      eg_err (bootstrap_Run w b sched) = Some x \<and> eg_cancelled (bootstrap_Run w b sched))"
  using reachable_trace [of w b sched] by (simp add: errors_def)

lemma run_failure_returned:
  "(\<forall>r t x. main (bootstrap_Run w b sched) = Returned r \<and> first_failure (trace (bootstrap_Run w b sched)) = Some (t, x) \<longrightarrow>
      r = (if Is x Canceled then None else Some (WithMessage x ''bootstrap run err'')))"
  using returned_after_failure(2) [of w b sched] by blast

lemma run_no_failure_returned:
  "(\<forall>r. main (bootstrap_Run w b sched) = Returned r \<and> Go Wait_task \<in> set (trace (bootstrap_Run w b sched))
        \<and> first_failure (trace (bootstrap_Run w b sched)) = None \<longrightarrow> r = None)"
proof (intro allI impI, elim conjE)
  fix r
  assume "main (bootstrap_Run w b sched) = Returned r" and "Go Wait_task \<in> set (trace (bootstrap_Run w b sched))"
    and "first_failure (trace (bootstrap_Run w b sched)) = None"
  with returned_late [of w b sched r] show "r = None"
    by (simp add: result_def)
qed

lemma run_group_returned:
  "(\<forall>r. main (bootstrap_Run w b sched) = Returned r \<and> Go Wait_task \<in> set (trace (bootstrap_Run w b sched)) \<longrightarrow>
      r = result (map_option snd (first_failure (trace (bootstrap_Run w b sched)))))"
  using returned_late [of w b sched] by blast

lemma run_failure_returns:
  "(\<forall>t x. responsive w b \<and> first_failure (trace (bootstrap_Run w b sched)) = Some (t, x) \<longrightarrow>
      main (bootstrap_Run w b (sched @ drain (length (runners b)) reason)) = Returned (if Is x Canceled then None else Some (WithMessage x ''bootstrap run err'')))"
  using failure_drained(3) [of w b sched] by blast

lemma run_cooperative_returns:
  "(cooperative w b \<longrightarrow>
      (\<forall>r. main (bootstrap_Run w b sched) = Returned r \<longrightarrow> r = None)
      \<and> main (bootstrap_Run w b (sched @ Cancel # drain (length (runners b)) reason)) = Returned None)"
proof
  assume c: "cooperative w b"
  from cancel_drained [OF cooperative_responsive [OF c], of sched reason]
  obtain r where "main (bootstrap_Run w b (sched @ Cancel # drain (length (runners b)) reason)) = Returned r"
    by (cases "main (bootstrap_Run w b (sched @ Cancel # drain (length (runners b)) reason))") (simp_all add: settled_def)
  with cooperative_nil [OF c this] have "main (bootstrap_Run w b (sched @ Cancel # drain (length (runners b)) reason)) = Returned None"
    by simp
  moreover from cooperative_nil [OF c, of sched]
  have "\<forall>r. main (bootstrap_Run w b sched) = Returned r \<longrightarrow> r = None"
    by blast
  ultimately show "(\<forall>r. main (bootstrap_Run w b sched) = Returned r \<longrightarrow> r = None)
      \<and> main (bootstrap_Run w b (sched @ Cancel # drain (length (runners b)) reason)) = Returned None"
    by (rule conjI [rotated])
qed

lemma run_start_origin:
  "(\<forall>i y. Task_returned (Start_task i) (Some y) \<in> set (trace (bootstrap_Run w b sched)) \<longrightarrow>
      i < length (runners b)
      \<and> (\<exists>d e. Run (runners b ! i) d = Some (Some e) \<and> y = WithMessage e (''starting '' @ Name (runners b ! i) @ '' failed'')))"
proof (intro allI impI)
  fix i y
  assume "Task_returned (Start_task i) (Some y) \<in> set (trace (bootstrap_Run w b sched))"
  with reachable_trace [of w b sched] have "genuine w b (Task_returned (Start_task i) (Some y))"
    by (simp add: origins_def)
  then obtain d r where i: "i < length (runners b)" and r: "Run (runners b ! i) d = Some r"
    "Some y = wrap r (''starting '' @ Name (runners b ! i) @ '' failed'')"
    by (auto simp: genuine_def)
  from r obtain e where "r = Some e" "y = WithMessage e (''starting '' @ Name (runners b ! i) @ '' failed'')"
    by (cases r) (simp_all add: wrap_def)
  with i r(1) show "i < length (runners b)
      \<and> (\<exists>d e. Run (runners b ! i) d = Some (Some e) \<and> y = WithMessage e (''starting '' @ Name (runners b ! i) @ '' failed''))"
    by blast
qed

lemma run_start_returns:
  "(\<forall>i e. \<not> panicked (bootstrap_Run w b sched) \<and> i < length (runners b)
        \<and> tasks (bootstrap_Run w b sched) (Start_task i) = Some Blocked
        \<and> Run (runners b ! i) (egCtx_done (bootstrap_Run w b sched)) = Some (Some e) \<longrightarrow>
      trace (bootstrap_Run w b (sched @ [Task (Start_task i)]))
        = trace (bootstrap_Run w b sched) @ [Task_returned (Start_task i) (Some (WithMessage e (''starting '' @ Name (runners b ! i) @ '' failed'')))])"
  by (simp add: Run_snoc step_def task_step_def Let_def wrap_def finish_fields)

lemma run_start_text:
  "(\<forall>r i e. main (bootstrap_Run w b sched) = Returned r
        \<and> first_failure (trace (bootstrap_Run w b sched)) = Some (Start_task i, WithMessage e (''starting '' @ Name (runners b ! i) @ '' failed''))
        \<and> \<not> Is e Canceled \<longrightarrow>
      r = Some (WithMessage (WithMessage e (''starting '' @ Name (runners b ! i) @ '' failed'')) ''bootstrap run err'')
      \<and> map_option Error r
          = Some (''bootstrap run err: starting '' @ Name (runners b ! i) @ '' failed: '' @ Error e))"
proof (intro allI impI, elim conjE)
  fix r i e
  assume "main (bootstrap_Run w b sched) = Returned r"
    and "first_failure (trace (bootstrap_Run w b sched)) = Some (Start_task i, WithMessage e (''starting '' @ Name (runners b ! i) @ '' failed''))"
    and "\<not> Is e Canceled"
  with returned_after_failure(2) [of w b sched r "Start_task i" "WithMessage e (''starting '' @ Name (runners b ! i) @ '' failed'')"]
  have "r = Some (WithMessage (WithMessage e (''starting '' @ Name (runners b ! i) @ '' failed'')) ''bootstrap run err'')"
    by simp
  then show "r = Some (WithMessage (WithMessage e (''starting '' @ Name (runners b ! i) @ '' failed'')) ''bootstrap run err'')
      \<and> map_option Error r
          = Some (''bootstrap run err: starting '' @ Name (runners b ! i) @ '' failed: '' @ Error e)"
    by simp
qed

lemma run_start_failure_ends:
  "(\<forall>i y. responsive w b \<and> Task_returned (Start_task i) (Some y) \<in> set (trace (bootstrap_Run w b sched)) \<longrightarrow>
      (\<exists>t x. first_failure (trace (bootstrap_Run w b sched)) = Some (t, x)
             \<and> main (bootstrap_Run w b (sched @ drain (length (runners b)) reason)) = Returned (if Is x Canceled then None else Some (WithMessage x ''bootstrap run err'')))
      \<and> count_list (trace (bootstrap_Run w b (sched @ drain (length (runners b)) reason))) BeforeRun_called = (if beforeRun b = None then 0 else 1)
      \<and> count_list (trace (bootstrap_Run w b (sched @ drain (length (runners b)) reason))) OnRun_called = (if onRun b = None then 0 else 1)
      \<and> (\<forall>k<length (runners b). count_list (trace (bootstrap_Run w b (sched @ drain (length (runners b)) reason))) (Stop_called k) = 1))"
proof (intro allI impI, elim conjE)
  fix i y
  assume r: "responsive w b" and ev: "Task_returned (Start_task i) (Some y) \<in> set (trace (bootstrap_Run w b sched))"
  from failure_first [OF ev] obtain t x where ff: "first_failure (trace (bootstrap_Run w b sched)) = Some (t, x)"
    by blast
  note d = failure_drained [OF r ff, of reason]
  note f = settled_run [OF d(1,2)]
  from ff d(3) have 1: "\<exists>t x. first_failure (trace (bootstrap_Run w b sched)) = Some (t, x)
             \<and> main (bootstrap_Run w b (sched @ drain (length (runners b)) reason)) = Returned (if Is x Canceled then None else Some (WithMessage x ''bootstrap run err''))"
    by blast
  from f(4) have 4: "\<forall>k<length (runners b). count_list (trace (bootstrap_Run w b (sched @ drain (length (runners b)) reason))) (Stop_called k) = 1"
    by blast
  note 3 = f(3)
  from 1 f(2) 3 4 show "(\<exists>t x. first_failure (trace (bootstrap_Run w b sched)) = Some (t, x)
             \<and> main (bootstrap_Run w b (sched @ drain (length (runners b)) reason)) = Returned (if Is x Canceled then None else Some (WithMessage x ''bootstrap run err'')))
      \<and> count_list (trace (bootstrap_Run w b (sched @ drain (length (runners b)) reason))) BeforeRun_called = (if beforeRun b = None then 0 else 1)
      \<and> count_list (trace (bootstrap_Run w b (sched @ drain (length (runners b)) reason))) OnRun_called = (if onRun b = None then 0 else 1)
      \<and> (\<forall>k<length (runners b). count_list (trace (bootstrap_Run w b (sched @ drain (length (runners b)) reason))) (Stop_called k) = 1)"
    by (intro conjI)
qed

lemma run_onRun_origin:
  "(\<forall>y. Task_returned OnRun_task (Some y) \<in> set (trace (bootstrap_Run w b sched)) \<longrightarrow>
      (\<exists>fn d e. onRun b = Some fn \<and> fn d = Some (Some e) \<and> y = WithMessage e ''onRun err''))"
proof (intro allI impI)
  fix y
  assume "Task_returned OnRun_task (Some y) \<in> set (trace (bootstrap_Run w b sched))"
  with reachable_trace [of w b sched] have "genuine w b (Task_returned OnRun_task (Some y))"
    by (simp add: origins_def)
  then obtain fn d r where fn: "onRun b = Some fn" "fn d = Some r" "Some y = wrap r ''onRun err''"
    by (cases "onRun b") (auto simp: genuine_def)
  then obtain e where "r = Some e" "y = WithMessage e ''onRun err''"
    by (cases r) (simp_all add: wrap_def)
  with fn show "\<exists>fn d e. onRun b = Some fn \<and> fn d = Some (Some e) \<and> y = WithMessage e ''onRun err''"
    by blast
qed

lemma run_onRun_nil:
  "(onRun b = None \<longrightarrow>
      (\<forall>err. Task_returned OnRun_task err \<in> set (trace (bootstrap_Run w b sched)) \<longrightarrow> err = None))"
proof (intro allI impI)
  fix err
  assume "onRun b = None" and "Task_returned OnRun_task err \<in> set (trace (bootstrap_Run w b sched))"
  with reachable_trace [of w b sched] show "err = None"
    by (auto simp: origins_def genuine_def)
qed

lemma run_onRun_returns:
  "(\<forall>fn e. \<not> panicked (bootstrap_Run w b sched) \<and> tasks (bootstrap_Run w b sched) OnRun_task = Some Blocked
        \<and> onRun b = Some fn \<and> fn (egCtx_done (bootstrap_Run w b sched)) = Some (Some e) \<longrightarrow>
      trace (bootstrap_Run w b (sched @ [Task OnRun_task]))
        = trace (bootstrap_Run w b sched) @ [Task_returned OnRun_task (Some (WithMessage e ''onRun err''))])"
  by (simp add: Run_snoc step_def task_step_def wrap_def finish_fields)

lemma run_onRun_text:
  "(\<forall>r e. main (bootstrap_Run w b sched) = Returned r
        \<and> first_failure (trace (bootstrap_Run w b sched)) = Some (OnRun_task, WithMessage e ''onRun err'')
        \<and> \<not> Is e Canceled \<longrightarrow>
      r = Some (WithMessage (WithMessage e ''onRun err'') ''bootstrap run err'')
      \<and> map_option Error r = Some (''bootstrap run err: onRun err: '' @ Error e))"
proof (intro allI impI, elim conjE)
  fix r e
  assume "main (bootstrap_Run w b sched) = Returned r"
    and "first_failure (trace (bootstrap_Run w b sched)) = Some (OnRun_task, WithMessage e ''onRun err'')"
    and "\<not> Is e Canceled"
  with returned_after_failure(2) [of w b sched r OnRun_task "WithMessage e ''onRun err''"]
  have "r = Some (WithMessage (WithMessage e ''onRun err'') ''bootstrap run err'')"
    by simp
  then show "r = Some (WithMessage (WithMessage e ''onRun err'') ''bootstrap run err'')
      \<and> map_option Error r = Some (''bootstrap run err: onRun err: '' @ Error e)"
    by simp
qed

lemma run_onRun_failure_ends:
  "(\<forall>y. responsive w b \<and> Task_returned OnRun_task (Some y) \<in> set (trace (bootstrap_Run w b sched)) \<longrightarrow>
      (\<exists>t x. first_failure (trace (bootstrap_Run w b sched)) = Some (t, x)
             \<and> main (bootstrap_Run w b (sched @ drain (length (runners b)) reason)) = Returned (if Is x Canceled then None else Some (WithMessage x ''bootstrap run err'')))
      \<and> count_list (trace (bootstrap_Run w b (sched @ drain (length (runners b)) reason))) BeforeRun_called = (if beforeRun b = None then 0 else 1)
      \<and> count_list (trace (bootstrap_Run w b (sched @ drain (length (runners b)) reason))) OnRun_called = 1
      \<and> (\<forall>k<length (runners b). count_list (trace (bootstrap_Run w b (sched @ drain (length (runners b)) reason))) (Stop_called k) = 1))"
proof (intro allI impI, elim conjE)
  fix y
  assume r: "responsive w b" and ev: "Task_returned OnRun_task (Some y) \<in> set (trace (bootstrap_Run w b sched))"
  from failure_first [OF ev] obtain t x where ff: "first_failure (trace (bootstrap_Run w b sched)) = Some (t, x)"
    by blast
  note d = failure_drained [OF r ff, of reason]
  note f = settled_run [OF d(1,2)]
  from ff d(3) have 1: "\<exists>t x. first_failure (trace (bootstrap_Run w b sched)) = Some (t, x)
             \<and> main (bootstrap_Run w b (sched @ drain (length (runners b)) reason)) = Returned (if Is x Canceled then None else Some (WithMessage x ''bootstrap run err''))"
    by blast
  from f(4) have 4: "\<forall>k<length (runners b). count_list (trace (bootstrap_Run w b (sched @ drain (length (runners b)) reason))) (Stop_called k) = 1"
    by blast
  from ev reachable_trace [of w b sched] have "genuine w b (Task_returned OnRun_task (Some y))"
    by (simp add: origins_def)
  then have "onRun b \<noteq> None"
    by (cases "onRun b") (simp_all add: genuine_def)
  with f(3) have 3: "count_list (trace (bootstrap_Run w b (sched @ drain (length (runners b)) reason))) OnRun_called = 1"
    by simp
  from 1 f(2) 3 4 show "(\<exists>t x. first_failure (trace (bootstrap_Run w b sched)) = Some (t, x)
             \<and> main (bootstrap_Run w b (sched @ drain (length (runners b)) reason)) = Returned (if Is x Canceled then None else Some (WithMessage x ''bootstrap run err'')))
      \<and> count_list (trace (bootstrap_Run w b (sched @ drain (length (runners b)) reason))) BeforeRun_called = (if beforeRun b = None then 0 else 1)
      \<and> count_list (trace (bootstrap_Run w b (sched @ drain (length (runners b)) reason))) OnRun_called = 1
      \<and> (\<forall>k<length (runners b). count_list (trace (bootstrap_Run w b (sched @ drain (length (runners b)) reason))) (Stop_called k) = 1)"
    by (intro conjI)
qed

lemma run_stop_called:
  "(\<forall>k. Stop_called k \<in> set (trace (bootstrap_Run w b sched)) \<longrightarrow>
      k < length (runners b) \<and> count_list (trace (bootstrap_Run w b sched)) (Stop_called k) = 1
      \<and> Callback_returned k (wrap (Stop (runners b ! k)) (''stopping '' @ Name (runners b ! k) @ '' failed'')) \<in> set (trace (bootstrap_Run w b sched)))"
proof (intro allI impI)
  fix k
  assume "Stop_called k \<in> set (trace (bootstrap_Run w b sched))"
  then have "k \<in> called (bootstrap_Run w b sched)"
    by (rule stopped_called)
  from called_facts [OF this] show "k < length (runners b) \<and> count_list (trace (bootstrap_Run w b sched)) (Stop_called k) = 1
      \<and> Callback_returned k (wrap (Stop (runners b ! k)) (''stopping '' @ Name (runners b ! k) @ '' failed'')) \<in> set (trace (bootstrap_Run w b sched))"
    by (simp add: callback_result_def)
qed

lemma run_stop_returned:
  "(\<forall>k err. Callback_returned k err \<in> set (trace (bootstrap_Run w b sched)) \<longrightarrow>
      Stop_called k \<in> set (trace (bootstrap_Run w b sched)) \<and> err = wrap (Stop (runners b ! k)) (''stopping '' @ Name (runners b ! k) @ '' failed''))"
proof (intro allI impI)
  fix k err
  assume "Callback_returned k err \<in> set (trace (bootstrap_Run w b sched))"
  with reachable_stops [of b w sched]
  have "k \<in> called (bootstrap_Run w b sched)" and err: "err = callback_result b k"
    unfolding stops_def by blast+
  from called_facts(2) [OF this(1)] have "Stop_called k \<in> set (trace (bootstrap_Run w b sched))"
    by (intro count_member [of _ _ 0]) simp
  with err show "Stop_called k \<in> set (trace (bootstrap_Run w b sched)) \<and> err = wrap (Stop (runners b ! k)) (''stopping '' @ Name (runners b ! k) @ '' failed'')"
    by (simp add: callback_result_def)
qed

lemma run_stop_handled:
  "(\<forall>k e. Stop_called k \<in> set (trace (bootstrap_Run w b sched)) \<and> Stop (runners b ! k) = Some e \<longrightarrow>
      Handled (WithMessage e (''stopping '' @ Name (runners b ! k) @ '' failed'')) \<in> set (trace (bootstrap_Run w b sched))
      \<and> (\<forall>opts msg. gs b = Some (NewGraceful opts) \<and> WithErrorHandler msg \<in> set opts \<longrightarrow>
             Log ErrorLevel msg \<in> set (trace (bootstrap_Run w b sched))))"
proof (intro allI impI, elim conjE)
  fix k e
  assume "Stop_called k \<in> set (trace (bootstrap_Run w b sched))" and e: "Stop (runners b ! k) = Some e"
  then have k: "k \<in> called (bootstrap_Run w b sched)"
    by (intro stopped_called)
  from called_gs [OF k] obtain c where c: "gs b = Some c"
    by blast
  from e have cr: "callback_result b k = Some (WithMessage e (''stopping '' @ Name (runners b ! k) @ '' failed''))"
    by (simp add: callback_result_def wrap_def)
  from called_facts(4) [OF k c] cr
  have sub: "set (handled c (Some (WithMessage e (''stopping '' @ Name (runners b ! k) @ '' failed'')))) \<subseteq> set (trace (bootstrap_Run w b sched))"
    by simp
  then have 1: "Handled (WithMessage e (''stopping '' @ Name (runners b ! k) @ '' failed'')) \<in> set (trace (bootstrap_Run w b sched))"
    by (auto simp: handled_member)
  have 2: "\<forall>opts msg. gs b = Some (NewGraceful opts) \<and> WithErrorHandler msg \<in> set opts \<longrightarrow>
             Log ErrorLevel msg \<in> set (trace (bootstrap_Run w b sched))"
  proof (intro allI impI, elim conjE)
    fix opts msg
    assume "gs b = Some (NewGraceful opts)" and "WithErrorHandler msg \<in> set opts"
    with c sub handled_logs [of msg opts "WithMessage e (''stopping '' @ Name (runners b ! k) @ '' failed'')"]
    show "Log ErrorLevel msg \<in> set (trace (bootstrap_Run w b sched))"
      by auto
  qed
  from 1 2 show "Handled (WithMessage e (''stopping '' @ Name (runners b ! k) @ '' failed'')) \<in> set (trace (bootstrap_Run w b sched))
      \<and> (\<forall>opts msg. gs b = Some (NewGraceful opts) \<and> WithErrorHandler msg \<in> set opts \<longrightarrow>
             Log ErrorLevel msg \<in> set (trace (bootstrap_Run w b sched)))"
    by (rule conjI)
qed

lemma run_handled_origin:
  "(\<forall>x. Handled x \<in> set (trace (bootstrap_Run w b sched)) \<longrightarrow>
      (\<exists>k e. k < length (runners b) \<and> Stop_called k \<in> set (trace (bootstrap_Run w b sched)) \<and> Stop (runners b ! k) = Some e
             \<and> x = WithMessage e (''stopping '' @ Name (runners b ! k) @ '' failed'')))"
proof (intro allI impI)
  fix x
  assume "Handled x \<in> set (trace (bootstrap_Run w b sched))"
  with reachable_stops [of b w sched]
  obtain k where k: "k \<in> called (bootstrap_Run w b sched)" and cr: "callback_result b k = Some x"
    unfolding stops_def by blast
  from called_facts(2) [OF k] have "Stop_called k \<in> set (trace (bootstrap_Run w b sched))"
    by (intro count_member [of _ _ 0]) simp
  moreover from cr obtain e where "Stop (runners b ! k) = Some e" "x = WithMessage e (''stopping '' @ Name (runners b ! k) @ '' failed'')"
    by (cases "Stop (runners b ! k)") (simp_all add: callback_result_def wrap_def)
  ultimately show "\<exists>k e. k < length (runners b) \<and> Stop_called k \<in> set (trace (bootstrap_Run w b sched)) \<and> Stop (runners b ! k) = Some e
             \<and> x = WithMessage e (''stopping '' @ Name (runners b ! k) @ '' failed'')"
    using called_facts(1) [OF k] by blast
qed

lemma run_callback_apart:
  "(\<forall>k. eg_err (bootstrap_Run w b (sched @ [Shutdown k reason])) = eg_err (bootstrap_Run w b sched)
          \<and> main (bootstrap_Run w b (sched @ [Shutdown k reason])) = main (bootstrap_Run w b sched))"
  by (simp add: Run_snoc step_def shutdown_step_def split: option.splits)

lemma run_cooperative_stops:
  "(cooperative w b \<longrightarrow>
      (\<forall>r. main (bootstrap_Run w b sched) = Returned r \<longrightarrow> r = None)
      \<and> main (bootstrap_Run w b (sched @ Cancel # drain (length (runners b)) reason)) = Returned None
      \<and> (runners b \<noteq> [] \<longrightarrow>
           (\<forall>k<length (runners b). count_list (trace (bootstrap_Run w b (sched @ Cancel # drain (length (runners b)) reason))) (Stop_called k) = 1
                 \<and> Callback_returned k (wrap (Stop (runners b ! k)) (''stopping '' @ Name (runners b ! k) @ '' failed'')) \<in> set (trace (bootstrap_Run w b (sched @ Cancel # drain (length (runners b)) reason)))
                 \<and> (\<forall>e. Stop (runners b ! k) = Some e \<longrightarrow>
                        Handled (WithMessage e (''stopping '' @ Name (runners b ! k) @ '' failed'')) \<in> set (trace (bootstrap_Run w b (sched @ Cancel # drain (length (runners b)) reason)))))))"
proof
  assume c: "cooperative w b"
  from c obtain ctl where ctl: "gs b = Some ctl"
    by (auto simp: cooperative_def)
  note st = cancel_drained [OF cooperative_responsive [OF c], of sched reason]
  then have ret: "returned (main (bootstrap_Run w b (sched @ Cancel # drain (length (runners b)) reason)))"
    by (simp add: settled_def)
  then obtain r where "main (bootstrap_Run w b (sched @ Cancel # drain (length (runners b)) reason)) = Returned r"
    by (cases "main (bootstrap_Run w b (sched @ Cancel # drain (length (runners b)) reason))") simp_all
  with cooperative_nil [OF c this] have 2: "main (bootstrap_Run w b (sched @ Cancel # drain (length (runners b)) reason)) = Returned None"
    by simp
  from cooperative_nil [OF c, of sched]
  have 1: "\<forall>r. main (bootstrap_Run w b sched) = Returned r \<longrightarrow> r = None"
    by blast
  have 3: "runners b \<noteq> [] \<longrightarrow>
           (\<forall>k<length (runners b). count_list (trace (bootstrap_Run w b (sched @ Cancel # drain (length (runners b)) reason))) (Stop_called k) = 1
                 \<and> Callback_returned k (wrap (Stop (runners b ! k)) (''stopping '' @ Name (runners b ! k) @ '' failed'')) \<in> set (trace (bootstrap_Run w b (sched @ Cancel # drain (length (runners b)) reason)))
                 \<and> (\<forall>e. Stop (runners b ! k) = Some e \<longrightarrow>
                        Handled (WithMessage e (''stopping '' @ Name (runners b ! k) @ '' failed'')) \<in> set (trace (bootstrap_Run w b (sched @ Cancel # drain (length (runners b)) reason)))))"
  proof (intro impI allI conjI)
    fix k e
    assume ne: "runners b \<noteq> []" and k: "k < length (runners b)"
    note f = settled_run(4) [OF st cooperative_started [OF c ne ret] k]
    from f show "count_list (trace (bootstrap_Run w b (sched @ Cancel # drain (length (runners b)) reason))) (Stop_called k) = 1"
      by simp
    from f show "Callback_returned k (wrap (Stop (runners b ! k)) (''stopping '' @ Name (runners b ! k) @ '' failed'')) \<in> set (trace (bootstrap_Run w b (sched @ Cancel # drain (length (runners b)) reason)))"
      by (simp add: callback_result_def)
    assume "Stop (runners b ! k) = Some e"
    then have "callback_result b k = Some (WithMessage e (''stopping '' @ Name (runners b ! k) @ '' failed''))"
      by (simp add: callback_result_def wrap_def)
    with f ctl have "set (handled ctl (Some (WithMessage e (''stopping '' @ Name (runners b ! k) @ '' failed'')))) \<subseteq> set (trace (bootstrap_Run w b (sched @ Cancel # drain (length (runners b)) reason)))"
      by simp
    then show "Handled (WithMessage e (''stopping '' @ Name (runners b ! k) @ '' failed'')) \<in> set (trace (bootstrap_Run w b (sched @ Cancel # drain (length (runners b)) reason)))"
      by (auto simp: handled_member)
  qed
  from 1 2 3 show "(\<forall>r. main (bootstrap_Run w b sched) = Returned r \<longrightarrow> r = None)
      \<and> main (bootstrap_Run w b (sched @ Cancel # drain (length (runners b)) reason)) = Returned None
      \<and> (runners b \<noteq> [] \<longrightarrow>
           (\<forall>k<length (runners b). count_list (trace (bootstrap_Run w b (sched @ Cancel # drain (length (runners b)) reason))) (Stop_called k) = 1
                 \<and> Callback_returned k (wrap (Stop (runners b ! k)) (''stopping '' @ Name (runners b ! k) @ '' failed'')) \<in> set (trace (bootstrap_Run w b (sched @ Cancel # drain (length (runners b)) reason)))
                 \<and> (\<forall>e. Stop (runners b ! k) = Some e \<longrightarrow>
                        Handled (WithMessage e (''stopping '' @ Name (runners b ! k) @ '' failed'')) \<in> set (trace (bootstrap_Run w b (sched @ Cancel # drain (length (runners b)) reason))))))"
    by (intro conjI)
qed

text \<open>
  C1. Under every schedule. The error the group holds, which \<open>eg.Wait()\<close> gives to \<open>Run\<close>, is the
  error of the first task of the group that returned one. When \<open>Run\<close> has returned after a task
  returned the error \<open>x\<close> first, it has returned \<open>x\<close> wrapped with "bootstrap run err", unless \<open>x\<close>
  is a cancellation (\<open>errors.Is(x, context.Canceled)\<close>), and then it has returned nil; when it has
  returned from the group and no task returned an error, it has returned nil. \<open>Run\<close> does
  return: when every call it makes returns once its context is done, then after a task has
  returned an error first, fair scheduling brings \<open>Run\<close> to the return of that result. And with
  runners that block until their context is done and return nil, a pre-start hook that returns
  nil, and a post-start hook and a controller that return nil or a cancellation, \<open>Run\<close> only
  ever returns nil, and once the caller has cancelled the context fair scheduling brings \<open>Run\<close>
  to return nil.
\<close>

theorem Run_result:
  "eg_err (bootstrap_Run w b sched) = map_option snd (first_failure (trace (bootstrap_Run w b sched)))
   \<and> (\<forall>r t x. main (bootstrap_Run w b sched) = Returned r \<and> first_failure (trace (bootstrap_Run w b sched)) = Some (t, x) \<longrightarrow>
      r = (if Is x Canceled then None else Some (WithMessage x ''bootstrap run err'')))
   \<and> (\<forall>r. main (bootstrap_Run w b sched) = Returned r \<and> Go Wait_task \<in> set (trace (bootstrap_Run w b sched))
        \<and> first_failure (trace (bootstrap_Run w b sched)) = None \<longrightarrow> r = None)
   \<and> (\<forall>t x. responsive w b \<and> first_failure (trace (bootstrap_Run w b sched)) = Some (t, x) \<longrightarrow>
      main (bootstrap_Run w b (sched @ drain (length (runners b)) reason)) = Returned (if Is x Canceled then None else Some (WithMessage x ''bootstrap run err'')))
   \<and> (cooperative w b \<longrightarrow>
      (\<forall>r. main (bootstrap_Run w b sched) = Returned r \<longrightarrow> r = None)
      \<and> main (bootstrap_Run w b (sched @ Cancel # drain (length (runners b)) reason)) = Returned None)"
  by (intro conjI run_group_error run_failure_returned run_no_failure_returned run_failure_returns run_cooperative_returns)

text \<open>The test \<open>run_err\<close>, a runner that returns \<open>ctx.Err()\<close>, and the test \<open>run\<close>.\<close>

theorem Run_result_witness:
  "first_failure (trace (bootstrap_Run test_world run_err_test start_fails))
     = Some (Start_task 0, WithMessage (Failure ''test'') ''starting testRunner failed'')
   \<and> eg_err (bootstrap_Run test_world run_err_test start_fails)
     = Some (WithMessage (Failure ''test'') ''starting testRunner failed'')
   \<and> main (bootstrap_Run test_world run_err_test start_fails)
     = Returned (Some (WithMessage (WithMessage (Failure ''test'') ''starting testRunner failed'')
                         ''bootstrap run err''))
   \<and> responsive test_world run_err_test
   \<and> main (bootstrap_Run test_world run_err_test
             (start_fails @ drain (length (runners run_err_test)) ''context canceled''))
     = Returned (Some (WithMessage (WithMessage (Failure ''test'') ''starting testRunner failed'')
                         ''bootstrap run err''))
   \<and> first_failure (trace (bootstrap_Run test_world ctx_err_runner cancel_late))
     = Some (Start_task 0, WithMessage Canceled ''starting testRunner failed'')
   \<and> main (bootstrap_Run test_world ctx_err_runner cancel_late) = Returned None
   \<and> cooperative test_world run_test
   \<and> main (bootstrap_Run test_world run_test cancelled) = Returned None
   \<and> main (bootstrap_Run test_world run_test
             (cancelled @ Cancel # drain (length (runners run_test)) ''context canceled''))
     = Returned None"
proof -
  note t = Run_result [of test_world run_err_test start_fails "''context canceled''"]
  note u = Run_result [of test_world ctx_err_runner cancel_late "''context canceled''"]
  note v = Run_result [of test_world run_test cancelled "''context canceled''"]
  have ff: "first_failure (trace (bootstrap_Run test_world run_err_test start_fails))
     = Some (Start_task 0, WithMessage (Failure ''test'') ''starting testRunner failed'')"
    by (simp add: start_fails_run)
  with t [THEN conjunct1]
  have err: "eg_err (bootstrap_Run test_world run_err_test start_fails)
     = Some (WithMessage (Failure ''test'') ''starting testRunner failed'')"
    by simp
  from t [THEN conjunct2, THEN conjunct1] start_fails_run(1) ff
  have ret: "main (bootstrap_Run test_world run_err_test start_fails)
     = Returned (Some (WithMessage (WithMessage (Failure ''test'') ''starting testRunner failed'')
                         ''bootstrap run err''))"
    by simp
  from t [THEN conjunct2, THEN conjunct2, THEN conjunct2, THEN conjunct1] test_contracts(1) ff
  have live: "main (bootstrap_Run test_world run_err_test
             (start_fails @ drain (length (runners run_err_test)) ''context canceled''))
     = Returned (Some (WithMessage (WithMessage (Failure ''test'') ''starting testRunner failed'')
                         ''bootstrap run err''))"
    by simp
  have ff': "first_failure (trace (bootstrap_Run test_world ctx_err_runner cancel_late))
     = Some (Start_task 0, WithMessage Canceled ''starting testRunner failed'')"
    by (simp add: cancel_late_runner)
  from u [THEN conjunct2, THEN conjunct1] cancel_late_runner(1) ff'
  have ret': "main (bootstrap_Run test_world ctx_err_runner cancel_late) = Returned None"
    by simp
  from v [THEN conjunct2, THEN conjunct2, THEN conjunct2, THEN conjunct2] test_contracts(3)
  have coop: "main (bootstrap_Run test_world run_test
             (cancelled @ Cancel # drain (length (runners run_test)) ''context canceled''))
     = Returned None"
    by simp
  from ff err ret test_contracts(1) live ff' ret' test_contracts(3) cancelled_run(1) coop
  show ?thesis
    by (intro conjI)
qed

text \<open>
  C4, as amended. Under every schedule. An error the start task of runner \<open>i\<close> returns is an
  error \<open>Run\<close> of that runner returned, wrapped with "starting <name> failed", and when \<open>Run\<close> of
  the runner returns an error the start task returns it wrapped so. When the start task is the
  first task of the group to return an error, the group holds that error and has cancelled its
  context. When \<open>Run\<close> has returned it has returned the first error of the group, whichever task
  it came from, wrapped with "bootstrap run err", unless that error is a cancellation, and then
  it has returned nil: the error of a runner that fails later is wrapped and not returned. When
  the first error is that of runner \<open>i\<close> and no cancellation, the text of what \<open>Run\<close> has returned
  is "bootstrap run err: starting <name> failed: ...". And \<open>Run\<close> does return: when every call
  it makes returns once its context is done, then after a start task has returned an error,
  fair scheduling brings \<open>Run\<close> to that return, with each hook that is set called exactly once
  and \<open>Stop\<close> of every runner called exactly once by the controller.
\<close>

theorem Run_start_failure:
  "(\<forall>i y. Task_returned (Start_task i) (Some y) \<in> set (trace (bootstrap_Run w b sched)) \<longrightarrow>
      i < length (runners b)
      \<and> (\<exists>d e. Run (runners b ! i) d = Some (Some e) \<and> y = WithMessage e (''starting '' @ Name (runners b ! i) @ '' failed'')))
   \<and> (\<forall>i e. \<not> panicked (bootstrap_Run w b sched) \<and> i < length (runners b)
        \<and> tasks (bootstrap_Run w b sched) (Start_task i) = Some Blocked
        \<and> Run (runners b ! i) (egCtx_done (bootstrap_Run w b sched)) = Some (Some e) \<longrightarrow>
      trace (bootstrap_Run w b (sched @ [Task (Start_task i)]))
        = trace (bootstrap_Run w b sched) @ [Task_returned (Start_task i) (Some (WithMessage e (''starting '' @ Name (runners b ! i) @ '' failed'')))])
   \<and> (\<forall>t x. first_failure (trace (bootstrap_Run w b sched)) = Some (t, x) \<longrightarrow>
      eg_err (bootstrap_Run w b sched) = Some x \<and> eg_cancelled (bootstrap_Run w b sched))
   \<and> (\<forall>r t x. main (bootstrap_Run w b sched) = Returned r \<and> first_failure (trace (bootstrap_Run w b sched)) = Some (t, x) \<longrightarrow>
      r = (if Is x Canceled then None else Some (WithMessage x ''bootstrap run err'')))
   \<and> (\<forall>r i e. main (bootstrap_Run w b sched) = Returned r
        \<and> first_failure (trace (bootstrap_Run w b sched)) = Some (Start_task i, WithMessage e (''starting '' @ Name (runners b ! i) @ '' failed''))
        \<and> \<not> Is e Canceled \<longrightarrow>
      r = Some (WithMessage (WithMessage e (''starting '' @ Name (runners b ! i) @ '' failed'')) ''bootstrap run err'')
      \<and> map_option Error r
          = Some (''bootstrap run err: starting '' @ Name (runners b ! i) @ '' failed: '' @ Error e))
   \<and> (\<forall>i y. responsive w b \<and> Task_returned (Start_task i) (Some y) \<in> set (trace (bootstrap_Run w b sched)) \<longrightarrow>
      (\<exists>t x. first_failure (trace (bootstrap_Run w b sched)) = Some (t, x)
             \<and> main (bootstrap_Run w b (sched @ drain (length (runners b)) reason)) = Returned (if Is x Canceled then None else Some (WithMessage x ''bootstrap run err'')))
      \<and> count_list (trace (bootstrap_Run w b (sched @ drain (length (runners b)) reason))) BeforeRun_called = (if beforeRun b = None then 0 else 1)
      \<and> count_list (trace (bootstrap_Run w b (sched @ drain (length (runners b)) reason))) OnRun_called = (if onRun b = None then 0 else 1)
      \<and> (\<forall>k<length (runners b). count_list (trace (bootstrap_Run w b (sched @ drain (length (runners b)) reason))) (Stop_called k) = 1))"
  by (intro conjI run_start_origin run_start_returns run_failure_held run_failure_returned run_start_text run_start_failure_ends)

text \<open>The test \<open>run_err\<close>.\<close>

theorem Run_start_failure_witness:
  "Task_returned (Start_task 0) (Some (WithMessage (Failure ''test'') ''starting testRunner failed''))
     \<in> set (trace (bootstrap_Run test_world run_err_test start_fails))
   \<and> Run (runners run_err_test ! 0) False = Some (Some (Failure ''test''))
   \<and> first_failure (trace (bootstrap_Run test_world run_err_test start_fails))
     = Some (Start_task 0, WithMessage (Failure ''test'') ''starting testRunner failed'')
   \<and> eg_err (bootstrap_Run test_world run_err_test start_fails)
     = Some (WithMessage (Failure ''test'') ''starting testRunner failed'')
   \<and> eg_cancelled (bootstrap_Run test_world run_err_test start_fails)
   \<and> main (bootstrap_Run test_world run_err_test start_fails)
     = Returned (Some (WithMessage (WithMessage (Failure ''test'') ''starting testRunner failed'')
                         ''bootstrap run err''))
   \<and> Error (WithMessage (WithMessage (Failure ''test'') ''starting testRunner failed'')
              ''bootstrap run err'')
     = ''bootstrap run err: starting testRunner failed: test''
   \<and> responsive test_world run_err_test
   \<and> main (bootstrap_Run test_world run_err_test
             (start_fails @ drain (length (runners run_err_test)) ''context canceled''))
     = Returned (Some (WithMessage (WithMessage (Failure ''test'') ''starting testRunner failed'')
                         ''bootstrap run err''))
   \<and> count_list (trace (bootstrap_Run test_world run_err_test
             (start_fails @ drain (length (runners run_err_test)) ''context canceled'')))
         BeforeRun_called = 1
   \<and> count_list (trace (bootstrap_Run test_world run_err_test
             (start_fails @ drain (length (runners run_err_test)) ''context canceled'')))
         OnRun_called = 1
   \<and> count_list (trace (bootstrap_Run test_world run_err_test
             (start_fails @ drain (length (runners run_err_test)) ''context canceled'')))
         (Stop_called 0) = 1"
proof -
  let ?s = "bootstrap_Run test_world run_err_test start_fails"
  let ?s' = "bootstrap_Run test_world run_err_test
             (start_fails @ drain (length (runners run_err_test)) ''context canceled'')"
  let ?x = "WithMessage (Failure ''test'') ''starting testRunner failed''"
  note t = Run_start_failure [of test_world run_err_test start_fails "''context canceled''"]
  have ev: "Task_returned (Start_task 0) (Some ?x) \<in> set (trace ?s)"
    by (simp add: start_fails_run)
  have rn: "Run (runners run_err_test ! 0) False = Some (Some (Failure ''test''))"
    by (simp add: fixture_defs)
  have ff: "first_failure (trace ?s) = Some (Start_task 0, ?x)"
    by (simp add: start_fails_run)
  from t [THEN conjunct2, THEN conjunct2, THEN conjunct1] ff
  have held: "eg_err ?s = Some ?x" "eg_cancelled ?s"
    by simp_all
  from t [THEN conjunct2, THEN conjunct2, THEN conjunct2, THEN conjunct1] start_fails_run(1) ff
  have ret: "main ?s = Returned (Some (WithMessage ?x ''bootstrap run err''))"
    by simp
  from t [THEN conjunct2, THEN conjunct2, THEN conjunct2, THEN conjunct2, THEN conjunct1,
      rule_format, of "Some (WithMessage ?x ''bootstrap run err'')" 0 "Failure ''test''"]
    ret ff test_runners(5)
  have msg_eq: "Error (WithMessage ?x ''bootstrap run err'')
     = ''bootstrap run err: starting testRunner failed: test''"
    by simp
  from t [THEN conjunct2, THEN conjunct2, THEN conjunct2, THEN conjunct2, THEN conjunct2,
      rule_format, of 0 ?x] test_contracts(1) ev
  have e: "(\<exists>t x. first_failure (trace ?s) = Some (t, x)
             \<and> main ?s' = Returned (if Is x Canceled then None
                                      else Some (WithMessage x ''bootstrap run err'')))
      \<and> count_list (trace ?s') BeforeRun_called = (if beforeRun run_err_test = None then 0 else 1)
      \<and> count_list (trace ?s') OnRun_called = (if onRun run_err_test = None then 0 else 1)
      \<and> (\<forall>k<length (runners run_err_test). count_list (trace ?s') (Stop_called k) = 1)"
    by blast
  from e ff have live: "main ?s' = Returned (Some (WithMessage ?x ''bootstrap run err''))"
    by auto
  from e test_runners(8,9) have hooks: "count_list (trace ?s') BeforeRun_called = 1"
    "count_list (trace ?s') OnRun_called = 1"
    by simp_all
  from e test_runners(1) have stop: "count_list (trace ?s') (Stop_called 0) = 1"
    by simp
  from ev rn ff held ret msg_eq test_contracts(1) live hooks stop show ?thesis
    by (intro conjI)
qed

text \<open>
  Against the claim as it was stated, for every runner whose \<open>Run\<close> returns an error: a runner
  that returns \<open>ctx.Err()\<close> once the caller has cancelled makes \<open>Run\<close> return nil, and of two
  failing runners \<open>Run\<close> returns the error of the first only.
\<close>

theorem Run_start_failure_counterexample:
  "Task_returned (Start_task 0) (Some (WithMessage Canceled ''starting testRunner failed''))
     \<in> set (trace (bootstrap_Run test_world ctx_err_runner cancel_late))
   \<and> main (bootstrap_Run test_world ctx_err_runner cancel_late) = Returned None
   \<and> Task_returned (Start_task 1) (Some (WithMessage (Failure ''test'') ''starting otherRunner failed''))
     \<in> set (trace (bootstrap_Run test_world two_failing first_wins))
   \<and> eg_err (bootstrap_Run test_world two_failing first_wins)
     = Some (WithMessage (Failure ''test'') ''starting testRunner failed'')
   \<and> main (bootstrap_Run test_world two_failing first_wins)
     = Returned (Some (WithMessage (WithMessage (Failure ''test'') ''starting testRunner failed'')
                         ''bootstrap run err''))
   \<and> Error (WithMessage (WithMessage (Failure ''test'') ''starting testRunner failed'')
              ''bootstrap run err'')
     = ''bootstrap run err: starting testRunner failed: test''"
proof -
  have "eg_err (bootstrap_Run test_world two_failing first_wins)
     = Some (WithMessage (Failure ''test'') ''starting testRunner failed'')"
    using run_group_error [of test_world two_failing first_wins]
    by (simp add: first_wins_two_failing)
  then show ?thesis
    by (simp add: cancel_late_runner first_wins_two_failing)
qed

text \<open>
  C7, as amended. Under every schedule. An error the post-start task returns is an error the
  post-start hook returned, wrapped with "onRun err", and when the hook returns an error the
  task returns it wrapped so; without a post-start hook the task returns nil. When the
  post-start task is the first task of the group to return an error, the group holds that
  error and has cancelled its context. When \<open>Run\<close> has returned it has returned the first error
  of the group, whichever task it came from, wrapped with "bootstrap run err", unless that
  error is a cancellation, and then it has returned nil. When the first error is that of the
  hook and no cancellation, the text of what \<open>Run\<close> has returned is
  "bootstrap run err: onRun err: ...". And \<open>Run\<close> does return: when every call it makes returns
  once its context is done, then after the post-start task has returned an error, fair
  scheduling brings \<open>Run\<close> to that return, with the post-start hook called exactly once and \<open>Stop\<close>
  of every runner called exactly once by the controller.
\<close>

theorem Run_onRun_failure:
  "(\<forall>y. Task_returned OnRun_task (Some y) \<in> set (trace (bootstrap_Run w b sched)) \<longrightarrow>
      (\<exists>fn d e. onRun b = Some fn \<and> fn d = Some (Some e) \<and> y = WithMessage e ''onRun err''))
   \<and> (onRun b = None \<longrightarrow>
      (\<forall>err. Task_returned OnRun_task err \<in> set (trace (bootstrap_Run w b sched)) \<longrightarrow> err = None))
   \<and> (\<forall>fn e. \<not> panicked (bootstrap_Run w b sched) \<and> tasks (bootstrap_Run w b sched) OnRun_task = Some Blocked
        \<and> onRun b = Some fn \<and> fn (egCtx_done (bootstrap_Run w b sched)) = Some (Some e) \<longrightarrow>
      trace (bootstrap_Run w b (sched @ [Task OnRun_task]))
        = trace (bootstrap_Run w b sched) @ [Task_returned OnRun_task (Some (WithMessage e ''onRun err''))])
   \<and> (\<forall>t x. first_failure (trace (bootstrap_Run w b sched)) = Some (t, x) \<longrightarrow>
      eg_err (bootstrap_Run w b sched) = Some x \<and> eg_cancelled (bootstrap_Run w b sched))
   \<and> (\<forall>r t x. main (bootstrap_Run w b sched) = Returned r \<and> first_failure (trace (bootstrap_Run w b sched)) = Some (t, x) \<longrightarrow>
      r = (if Is x Canceled then None else Some (WithMessage x ''bootstrap run err'')))
   \<and> (\<forall>r e. main (bootstrap_Run w b sched) = Returned r
        \<and> first_failure (trace (bootstrap_Run w b sched)) = Some (OnRun_task, WithMessage e ''onRun err'')
        \<and> \<not> Is e Canceled \<longrightarrow>
      r = Some (WithMessage (WithMessage e ''onRun err'') ''bootstrap run err'')
      \<and> map_option Error r = Some (''bootstrap run err: onRun err: '' @ Error e))
   \<and> (\<forall>y. responsive w b \<and> Task_returned OnRun_task (Some y) \<in> set (trace (bootstrap_Run w b sched)) \<longrightarrow>
      (\<exists>t x. first_failure (trace (bootstrap_Run w b sched)) = Some (t, x)
             \<and> main (bootstrap_Run w b (sched @ drain (length (runners b)) reason)) = Returned (if Is x Canceled then None else Some (WithMessage x ''bootstrap run err'')))
      \<and> count_list (trace (bootstrap_Run w b (sched @ drain (length (runners b)) reason))) BeforeRun_called = (if beforeRun b = None then 0 else 1)
      \<and> count_list (trace (bootstrap_Run w b (sched @ drain (length (runners b)) reason))) OnRun_called = 1
      \<and> (\<forall>k<length (runners b). count_list (trace (bootstrap_Run w b (sched @ drain (length (runners b)) reason))) (Stop_called k) = 1))"
  by (intro conjI run_onRun_origin run_onRun_nil run_onRun_returns run_failure_held run_failure_returned run_onRun_text run_onRun_failure_ends)

text \<open>The test \<open>onRun_fail\<close>.\<close>

theorem Run_onRun_failure_witness:
  "Task_returned OnRun_task (Some (WithMessage (Failure ''test'') ''onRun err''))
     \<in> set (trace (bootstrap_Run test_world onRun_fail_test onRun_fails))
   \<and> onRun onRun_fail_test = Some hook_fails
   \<and> hook_fails False = Some (Some (Failure ''test''))
   \<and> first_failure (trace (bootstrap_Run test_world onRun_fail_test onRun_fails))
     = Some (OnRun_task, WithMessage (Failure ''test'') ''onRun err'')
   \<and> eg_err (bootstrap_Run test_world onRun_fail_test onRun_fails)
     = Some (WithMessage (Failure ''test'') ''onRun err'')
   \<and> eg_cancelled (bootstrap_Run test_world onRun_fail_test onRun_fails)
   \<and> main (bootstrap_Run test_world onRun_fail_test onRun_fails)
     = Returned (Some (WithMessage (WithMessage (Failure ''test'') ''onRun err'')
                         ''bootstrap run err''))
   \<and> Error (WithMessage (WithMessage (Failure ''test'') ''onRun err'') ''bootstrap run err'')
     = ''bootstrap run err: onRun err: test''
   \<and> responsive test_world onRun_fail_test
   \<and> main (bootstrap_Run test_world onRun_fail_test
             (onRun_fails @ drain (length (runners onRun_fail_test)) ''context canceled''))
     = Returned (Some (WithMessage (WithMessage (Failure ''test'') ''onRun err'')
                         ''bootstrap run err''))
   \<and> count_list (trace (bootstrap_Run test_world onRun_fail_test
             (onRun_fails @ drain (length (runners onRun_fail_test)) ''context canceled'')))
         OnRun_called = 1
   \<and> count_list (trace (bootstrap_Run test_world onRun_fail_test
             (onRun_fails @ drain (length (runners onRun_fail_test)) ''context canceled'')))
         (Stop_called 0) = 1"
proof -
  let ?s = "bootstrap_Run test_world onRun_fail_test onRun_fails"
  let ?s' = "bootstrap_Run test_world onRun_fail_test
             (onRun_fails @ drain (length (runners onRun_fail_test)) ''context canceled'')"
  let ?x = "WithMessage (Failure ''test'') ''onRun err''"
  note t = Run_onRun_failure [of test_world onRun_fail_test onRun_fails "''context canceled''"]
  have ev: "Task_returned OnRun_task (Some ?x) \<in> set (trace ?s)"
    by (simp add: onRun_fails_run)
  have hk: "onRun onRun_fail_test = Some hook_fails" "hook_fails False = Some (Some (Failure ''test''))"
    by (simp_all add: fixture_defs)
  have ff: "first_failure (trace ?s) = Some (OnRun_task, ?x)"
    by (simp add: onRun_fails_run)
  from t [THEN conjunct2, THEN conjunct2, THEN conjunct2, THEN conjunct1] ff
  have held: "eg_err ?s = Some ?x" "eg_cancelled ?s"
    by simp_all
  from t [THEN conjunct2, THEN conjunct2, THEN conjunct2, THEN conjunct2, THEN conjunct1]
    onRun_fails_run(1) ff
  have ret: "main ?s = Returned (Some (WithMessage ?x ''bootstrap run err''))"
    by simp
  from t [THEN conjunct2, THEN conjunct2, THEN conjunct2, THEN conjunct2, THEN conjunct2,
      THEN conjunct1, rule_format, of "Some (WithMessage ?x ''bootstrap run err'')" "Failure ''test''"]
    ret ff
  have msg_eq: "Error (WithMessage ?x ''bootstrap run err'') = ''bootstrap run err: onRun err: test''"
    by simp
  from t [THEN conjunct2, THEN conjunct2, THEN conjunct2, THEN conjunct2, THEN conjunct2,
      THEN conjunct2, rule_format, of ?x] test_contracts(2) ev
  have e: "(\<exists>t x. first_failure (trace ?s) = Some (t, x)
             \<and> main ?s' = Returned (if Is x Canceled then None
                                      else Some (WithMessage x ''bootstrap run err'')))
      \<and> count_list (trace ?s') BeforeRun_called = (if beforeRun onRun_fail_test = None then 0 else 1)
      \<and> count_list (trace ?s') OnRun_called = 1
      \<and> (\<forall>k<length (runners onRun_fail_test). count_list (trace ?s') (Stop_called k) = 1)"
    by blast
  from e ff have live: "main ?s' = Returned (Some (WithMessage ?x ''bootstrap run err''))"
    by auto
  from e have hooks: "count_list (trace ?s') OnRun_called = 1"
    by simp
  from e test_runners(2) have stop: "count_list (trace ?s') (Stop_called 0) = 1"
    by simp
  from ev hk ff held ret msg_eq test_contracts(2) live hooks stop show ?thesis
    by (intro conjI)
qed

text \<open>
  Against the claim as it was stated, for every post-start hook that returns an error: a hook
  that returns \<open>ctx.Err()\<close> once the caller has cancelled makes \<open>Run\<close> return nil, and when a
  runner has failed before the hook does, \<open>Run\<close> returns the error of the runner, which does not
  contain "onRun err".
\<close>

theorem Run_onRun_failure_counterexample:
  "Task_returned OnRun_task (Some (WithMessage Canceled ''onRun err''))
     \<in> set (trace (bootstrap_Run test_world ctx_err_hook cancel_late))
   \<and> main (bootstrap_Run test_world ctx_err_hook cancel_late) = Returned None
   \<and> Task_returned OnRun_task (Some (WithMessage (Failure ''test'') ''onRun err''))
     \<in> set (trace (bootstrap_Run test_world both_fail first_wins))
   \<and> main (bootstrap_Run test_world both_fail first_wins)
     = Returned (Some (WithMessage (WithMessage (Failure ''test'') ''starting testRunner failed'')
                         ''bootstrap run err''))
   \<and> Error (WithMessage (WithMessage (Failure ''test'') ''starting testRunner failed'')
              ''bootstrap run err'')
     = ''bootstrap run err: starting testRunner failed: test''"
  by (simp add: cancel_late_hook first_wins_both_fail)

text \<open>
  C5. Under every schedule. When \<open>Stop\<close> of runner \<open>k\<close> has been called, it has been called once,
  by the callback of the runner, and the callback has returned what \<open>Stop\<close> returned, wrapped
  with "stopping <name> failed" when it is an error; a callback returns nothing else. An error
  a callback returns is given to the error handler of the controller, which logs it when the
  controller is the graceful one with a logging handler, as the controller of \<open>New\<close> is; the
  handler is given nothing else. The call of a callback changes neither the error of the group
  nor what \<open>Run\<close> returns: the group holds the first error of its tasks, and \<open>Run\<close> returns what
  its last statements make of that. So with runners that block until their context is done and
  return nil, whatever their \<open>Stop\<close> returns, \<open>Run\<close> only ever returns nil, and once the caller has
  cancelled the context fair scheduling brings \<open>Run\<close> to return nil, with \<open>Stop\<close> of every runner
  called once and every error of a \<open>Stop\<close> handled.
\<close>

theorem Run_stop_failure:
  "(\<forall>k. Stop_called k \<in> set (trace (bootstrap_Run w b sched)) \<longrightarrow>
      k < length (runners b) \<and> count_list (trace (bootstrap_Run w b sched)) (Stop_called k) = 1
      \<and> Callback_returned k (wrap (Stop (runners b ! k)) (''stopping '' @ Name (runners b ! k) @ '' failed'')) \<in> set (trace (bootstrap_Run w b sched)))
   \<and> (\<forall>k err. Callback_returned k err \<in> set (trace (bootstrap_Run w b sched)) \<longrightarrow>
      Stop_called k \<in> set (trace (bootstrap_Run w b sched)) \<and> err = wrap (Stop (runners b ! k)) (''stopping '' @ Name (runners b ! k) @ '' failed''))
   \<and> (\<forall>k e. Stop_called k \<in> set (trace (bootstrap_Run w b sched)) \<and> Stop (runners b ! k) = Some e \<longrightarrow>
      Handled (WithMessage e (''stopping '' @ Name (runners b ! k) @ '' failed'')) \<in> set (trace (bootstrap_Run w b sched))
      \<and> (\<forall>opts msg. gs b = Some (NewGraceful opts) \<and> WithErrorHandler msg \<in> set opts \<longrightarrow>
             Log ErrorLevel msg \<in> set (trace (bootstrap_Run w b sched))))
   \<and> (\<forall>x. Handled x \<in> set (trace (bootstrap_Run w b sched)) \<longrightarrow>
      (\<exists>k e. k < length (runners b) \<and> Stop_called k \<in> set (trace (bootstrap_Run w b sched)) \<and> Stop (runners b ! k) = Some e
             \<and> x = WithMessage e (''stopping '' @ Name (runners b ! k) @ '' failed'')))
   \<and> (\<forall>k. eg_err (bootstrap_Run w b (sched @ [Shutdown k reason])) = eg_err (bootstrap_Run w b sched)
          \<and> main (bootstrap_Run w b (sched @ [Shutdown k reason])) = main (bootstrap_Run w b sched))
   \<and> eg_err (bootstrap_Run w b sched) = map_option snd (first_failure (trace (bootstrap_Run w b sched)))
   \<and> (\<forall>r. main (bootstrap_Run w b sched) = Returned r \<and> Go Wait_task \<in> set (trace (bootstrap_Run w b sched)) \<longrightarrow>
      r = result (map_option snd (first_failure (trace (bootstrap_Run w b sched)))))
   \<and> (cooperative w b \<longrightarrow>
      (\<forall>r. main (bootstrap_Run w b sched) = Returned r \<longrightarrow> r = None)
      \<and> main (bootstrap_Run w b (sched @ Cancel # drain (length (runners b)) reason)) = Returned None
      \<and> (runners b \<noteq> [] \<longrightarrow>
           (\<forall>k<length (runners b). count_list (trace (bootstrap_Run w b (sched @ Cancel # drain (length (runners b)) reason))) (Stop_called k) = 1
                 \<and> Callback_returned k (wrap (Stop (runners b ! k)) (''stopping '' @ Name (runners b ! k) @ '' failed'')) \<in> set (trace (bootstrap_Run w b (sched @ Cancel # drain (length (runners b)) reason)))
                 \<and> (\<forall>e. Stop (runners b ! k) = Some e \<longrightarrow>
                        Handled (WithMessage e (''stopping '' @ Name (runners b ! k) @ '' failed'')) \<in> set (trace (bootstrap_Run w b (sched @ Cancel # drain (length (runners b)) reason)))))))"
  by (intro conjI run_stop_called run_stop_returned run_stop_handled run_handled_origin run_callback_apart run_group_error run_group_returned run_cooperative_stops)

text \<open>The test \<open>runner_stop_fail\<close>, with its four log lines.\<close>

theorem Run_stop_failure_witness:
  "Stop_called 0 \<in> set (trace (bootstrap_Run test_world runner_stop_fail_test stop_fails))
   \<and> Stop (runners runner_stop_fail_test ! 0) = Some (Failure ''test'')
   \<and> Callback_returned 0 (Some (WithMessage (Failure ''test'') ''stopping testRunner failed''))
       \<in> set (trace (bootstrap_Run test_world runner_stop_fail_test stop_fails))
   \<and> Handled (WithMessage (Failure ''test'') ''stopping testRunner failed'')
       \<in> set (trace (bootstrap_Run test_world runner_stop_fail_test stop_fails))
   \<and> Log ErrorLevel ''error when shutting down''
       \<in> set (trace (bootstrap_Run test_world runner_stop_fail_test stop_fails))
   \<and> filter (\<lambda>ev. \<exists>l m. ev = Log l m) (trace (bootstrap_Run test_world runner_stop_fail_test stop_fails))
       = [Log InfoLevel ''Starting runner: testRunner'', Log InfoLevel ''bootstrap started.'',
          Log InfoLevel ''Stopping runner: testRunner, cause: context canceled'',
          Log ErrorLevel ''error when shutting down'']
   \<and> eg_err (bootstrap_Run test_world runner_stop_fail_test stop_fails) = Some Canceled
   \<and> main (bootstrap_Run test_world runner_stop_fail_test stop_fails) = Returned None
   \<and> cooperative test_world runner_stop_fail_test
   \<and> main (bootstrap_Run test_world runner_stop_fail_test
             (stop_fails @ Cancel # drain (length (runners runner_stop_fail_test)) ''context canceled''))
       = Returned None
   \<and> count_list (trace (bootstrap_Run test_world runner_stop_fail_test
             (stop_fails @ Cancel # drain (length (runners runner_stop_fail_test)) ''context canceled'')))
         (Stop_called 0) = 1
   \<and> Handled (WithMessage (Failure ''test'') ''stopping testRunner failed'')
       \<in> set (trace (bootstrap_Run test_world runner_stop_fail_test
             (stop_fails @ Cancel # drain (length (runners runner_stop_fail_test)) ''context canceled'')))"
proof -
  let ?s = "bootstrap_Run test_world runner_stop_fail_test stop_fails"
  let ?s' = "bootstrap_Run test_world runner_stop_fail_test
             (stop_fails @ Cancel # drain (length (runners runner_stop_fail_test)) ''context canceled'')"
  let ?x = "WithMessage (Failure ''test'') ''stopping testRunner failed''"
  note t = Run_stop_failure [of test_world runner_stop_fail_test stop_fails "''context canceled''"]
  have ev: "Stop_called 0 \<in> set (trace ?s)"
    by (simp add: stop_fails_run)
  note st = test_runners(7)
  from t [THEN conjunct1, rule_format, of 0] ev st test_runners(6)
  have cb: "Callback_returned 0 (Some ?x) \<in> set (trace ?s)"
    by (simp add: wrap_def)
  from t [THEN conjunct2, THEN conjunct2, THEN conjunct1, rule_format, of 0 "Failure ''test''"]
    ev st
  have h: "Handled (WithMessage (Failure ''test'')
                      (''stopping '' @ Name (runners runner_stop_fail_test ! 0) @ '' failed''))
             \<in> set (trace ?s)
      \<and> (\<forall>opts msg. gs runner_stop_fail_test = Some (NewGraceful opts)
             \<and> WithErrorHandler msg \<in> set opts \<longrightarrow> Log ErrorLevel msg \<in> set (trace ?s))"
    by blast
  from h [THEN conjunct1] test_runners(6) have hd: "Handled ?x \<in> set (trace ?s)"
    by simp
  from h [THEN conjunct2, rule_format,
      of "[WithTimeout Second, WithErrorHandler ''error when shutting down'',
           WithTrigger ''posixsignal'']" "''error when shutting down''"] test_runners(12)
  have lg: "Log ErrorLevel ''error when shutting down'' \<in> set (trace ?s)"
    by simp
  have logs: "filter (\<lambda>ev. \<exists>l m. ev = Log l m) (trace ?s)
       = [Log InfoLevel ''Starting runner: testRunner'', Log InfoLevel ''bootstrap started.'',
          Log InfoLevel ''Stopping runner: testRunner, cause: context canceled'',
          Log ErrorLevel ''error when shutting down'']"
    by (simp add: stop_fails_run)
  from t [THEN conjunct2, THEN conjunct2, THEN conjunct2, THEN conjunct2, THEN conjunct2,
      THEN conjunct1]
  have err: "eg_err ?s = Some Canceled"
    by (simp add: stop_fails_run)
  from t [THEN conjunct2, THEN conjunct2, THEN conjunct2, THEN conjunct2, THEN conjunct2,
      THEN conjunct2, THEN conjunct2] test_contracts(4)
  have c: "(\<forall>r. main ?s = Returned r \<longrightarrow> r = None) \<and> main ?s' = Returned None
      \<and> (runners runner_stop_fail_test \<noteq> [] \<longrightarrow>
           (\<forall>k<length (runners runner_stop_fail_test).
                 count_list (trace ?s') (Stop_called k) = 1
                 \<and> Callback_returned k (wrap (Stop (runners runner_stop_fail_test ! k))
                      (''stopping '' @ Name (runners runner_stop_fail_test ! k) @ '' failed''))
                    \<in> set (trace ?s')
                 \<and> (\<forall>e. Stop (runners runner_stop_fail_test ! k) = Some e \<longrightarrow>
                        Handled (WithMessage e
                           (''stopping '' @ Name (runners runner_stop_fail_test ! k) @ '' failed''))
                          \<in> set (trace ?s'))))"
    by blast
  from c have live: "main ?s' = Returned None"
    by blast
  from c stop_fails_run(1) have ret: "main ?s = Returned None"
    by simp
  from c test_runners(11) test_runners(3)
  have k0: "count_list (trace ?s') (Stop_called 0) = 1
      \<and> (\<forall>e. Stop (runners runner_stop_fail_test ! 0) = Some e \<longrightarrow>
             Handled (WithMessage e
                (''stopping '' @ Name (runners runner_stop_fail_test ! 0) @ '' failed''))
               \<in> set (trace ?s'))"
    by simp
  then have stop: "count_list (trace ?s') (Stop_called 0) = 1"
    by (rule conjunct1)
  from k0 st test_runners(6) have hd': "Handled ?x \<in> set (trace ?s')"
    by simp
  from ev st cb hd lg logs err ret test_contracts(4) live stop hd' show ?thesis
    by (intro conjI)
qed

end
